theory Spec2Isabelle
  imports Main "HOL-Library.Sublist"
begin

section \<open>Python strings\<close>

text \<open>
  A Python \<open>str\<close> is modelled as a \<open>string\<close>, one \<open>char\<close> per code point, for text whose
  code points lie in U+0000..U+00FF. On that range \<open>str.isspace\<close> holds for the code
  points 9..13, 28..32, 133 and 160, and \<open>str.lower\<close> moves A..Z and the capital letters
  192..222 (without the multiplication sign 215) up by 32.
\<close>

definition isspace :: "char \<Rightarrow> bool" where
  "isspace c =
     (let n = (of_char c :: nat)
      in (9 \<le> n \<and> n \<le> 13) \<or> (28 \<le> n \<and> n \<le> 32) \<or> n = 133 \<or> n = 160)"

definition lower_char :: "char \<Rightarrow> char" where
  "lower_char c =
     (let n = (of_char c :: nat)
      in if (65 \<le> n \<and> n \<le> 90) \<or> (192 \<le> n \<and> n \<le> 222 \<and> n \<noteq> 215)
         then char_of (n + 32) else c)"

definition lower :: "string \<Rightarrow> string" where
  "lower s = map lower_char s"

definition strip :: "string \<Rightarrow> string" where
  "strip s = rev (dropWhile isspace (rev (dropWhile isspace s)))"

text \<open>\<open>contains s k\<close> is Python's \<open>k in s\<close> on strings.\<close>

fun contains :: "string \<Rightarrow> string \<Rightarrow> bool" where
  "contains [] k = (k = [])"
| "contains (c # cs) k = (prefix k (c # cs) \<or> contains cs k)"

text \<open>\<open>split_whitespace s\<close> is \<open>s.split()\<close>: the maximal runs of non-whitespace.\<close>

function split_whitespace :: "string \<Rightarrow> string list" where
  "split_whitespace s =
     (case dropWhile isspace s of
        [] \<Rightarrow> []
      | c # cs \<Rightarrow> takeWhile (\<lambda>x. \<not> isspace x) (c # cs)
                 # split_whitespace (dropWhile (\<lambda>x. \<not> isspace x) (c # cs)))"
  by pat_completeness auto
termination
proof (relation "measure length")
  show "wf (measure length)" by simp
next
  fix s :: string and c cs
  assume a: "dropWhile isspace s = c # cs"
  have "\<not> isspace c" using a by (metis hd_dropWhile list.sel(1) list.distinct(1))
  then have "length (dropWhile (\<lambda>x. \<not> isspace x) (c # cs)) \<le> length cs"
    by (simp add: length_dropWhile_le)
  moreover have "length (c # cs) \<le> length s"
    using a length_dropWhile_le [of isspace s] by simp
  ultimately show "(dropWhile (\<lambda>x. \<not> isspace x) (c # cs), s) \<in> measure length"
    by simp
qed

declare split_whitespace.simps [simp del]

text \<open>
  \<open>split_sep sep s\<close> is \<open>s.split(sep)\<close>. Python raises for an empty separator; the source
  passes literals only.
\<close>

function split_from :: "string \<Rightarrow> string \<Rightarrow> string \<Rightarrow> string list" where
  "split_from sep acc [] = [rev acc]"
| "split_from sep acc (c # cs) =
     (if sep \<noteq> [] \<and> prefix sep (c # cs)
      then rev acc # split_from sep [] (drop (length sep) (c # cs))
      else split_from sep (c # acc) cs)"
  by pat_completeness auto
termination
  by (relation "measure (\<lambda>(sep, acc, s). length s)") auto

definition split_sep :: "string \<Rightarrow> string \<Rightarrow> string list" where
  "split_sep sep s = split_from sep [] s"

section \<open>Dictionaries\<close>

text \<open>
  A Python \<open>dict\<close> keeps its keys in insertion order, and \<open>keyword_dict.items()\<close> is
  iterated in that order, so a dictionary is an association list. \<open>dict_set\<close> is
  \<open>d[k] = v\<close>: an existing key keeps its position, a new key goes to the end.
\<close>

type_synonym ('k, 'v) dict = "('k \<times> 'v) list"

definition dict_in :: "'k \<Rightarrow> ('k, 'v) dict \<Rightarrow> bool" where
  "dict_in k d = (map_of d k \<noteq> None)"

fun dict_set :: "'k \<Rightarrow> 'v \<Rightarrow> ('k, 'v) dict \<Rightarrow> ('k, 'v) dict" where
  "dict_set k v [] = [(k, v)]"
| "dict_set k v ((k', v') # d) =
     (if k' = k then (k, v) # d else (k', v') # dict_set k v d)"

definition dict_get :: "('k, 'v list) dict \<Rightarrow> 'k \<Rightarrow> 'v list" where
  \<comment> \<open>\<open>d[k]\<close> for a key that is present; callers establish the key first.\<close>
  "dict_get d k = (case map_of d k of Some v \<Rightarrow> v | None \<Rightarrow> [])"

type_synonym keyword_dict = "(string, string list) dict"
type_synonym name_map = "(string, string) dict"

definition default_keywords :: keyword_dict where
  "default_keywords =
     [(''Food'', [''zomato'', ''swiggy'', ''restaurant'', ''pizza'']),
      (''Groceries'', [''d-mart'', ''big bazaar'', ''grocery'']),
      (''Recharge/Bill'', [''recharge'', ''electricity'', ''mobile'', ''water'']),
      (''Shopping'', [''amazon'', ''flipkart'', ''myntra'']),
      (''Entertainment'', [''netflix'', ''hotstar'', ''spotify'']),
      (''Transport'', [''uber'', ''ola'', ''fuel'', ''metro'']),
      (''Education'', [''institute'', ''college'', ''fees'']),
      (''Health'', [''pharmacy'', ''hospital'', ''clinic'']),
      (''Other'', [])]"

section \<open>The data frame\<close>

text \<open>
  A row of the frame built by \<open>parse_phonepe_pdf\<close>. \<open>Amount\<close> counts hundredths: the
  Python value is the float nearest to \<open>Amount / 100\<close>. \<open>Category\<close> is \<open>None\<close> while the
  frame has no such column.
\<close>

record date =
  year :: nat
  month :: nat
  day :: nat

record row =
  Date :: date
  Name :: string
  DebitCredit :: string
  Amount :: nat
  Category :: "string option"

type_synonym frame = "row list"

section \<open>Regular expressions\<close>

text \<open>
  The patterns of the source use character classes, concatenation, alternation, the
  star and counted repetition. \<open>\d\<close> is a decimal digit, which on U+0000..U+00FF is one of
  0..9; \<open>.\<close> is any character but the line feed.
\<close>

definition isdigit :: "char \<Rightarrow> bool" where
  "isdigit c = (let n = (of_char c :: nat) in 48 \<le> n \<and> n \<le> 57)"

definition isletter :: "char \<Rightarrow> bool" where
  \<comment> \<open>\<open>[A-Za-z]\<close>\<close>
  "isletter c = (let n = (of_char c :: nat) in (65 \<le> n \<and> n \<le> 90) \<or> (97 \<le> n \<and> n \<le> 122))"

datatype cclass =
  Lit char
| Letter
| Digit
| DigitOrComma
| AnyChar

fun in_class :: "cclass \<Rightarrow> char \<Rightarrow> bool" where
  "in_class (Lit a) c = (c = a)"
| "in_class Letter c = isletter c"
| "in_class Digit c = isdigit c"
| "in_class DigitOrComma c = (isdigit c \<or> c = CHR '','')"
| "in_class AnyChar c = (c \<noteq> CHR 0x0A)"

datatype regex =
  Never
| Empty
| Sym cclass
| Seq regex regex
| Alt regex regex
| Star regex

text \<open>A literal string, \<open>r{n}\<close>, and the concatenation of a list of patterns.\<close>

fun str :: "string \<Rightarrow> regex" where
  "str [] = Empty"
| "str (c # cs) = Seq (Sym (Lit c)) (str cs)"

fun times :: "nat \<Rightarrow> regex \<Rightarrow> regex" where
  "times 0 r = Empty"
| "times (Suc n) r = Seq r (times n r)"

fun seqs :: "regex list \<Rightarrow> regex" where
  "seqs [] = Empty"
| "seqs (r # rs) = Seq r (seqs rs)"

text \<open>
  Whether a pattern matches is decided by derivatives: \<open>deriv c r\<close> matches what \<open>r\<close>
  matches after a leading \<open>c\<close>. \<open>seq\<close> and \<open>alt\<close> build a concatenation and an alternative
  and drop the parts that can never match.
\<close>

fun nullable :: "regex \<Rightarrow> bool" where
  "nullable Never = False"
| "nullable Empty = True"
| "nullable (Sym k) = False"
| "nullable (Seq r s) = (nullable r \<and> nullable s)"
| "nullable (Alt r s) = (nullable r \<or> nullable s)"
| "nullable (Star r) = True"

fun seq :: "regex \<Rightarrow> regex \<Rightarrow> regex" where
  "seq Never s = Never"
| "seq Empty s = s"
| "seq r s = Seq r s"

fun alt :: "regex \<Rightarrow> regex \<Rightarrow> regex" where
  "alt Never s = s"
| "alt r Never = r"
| "alt r s = Alt r s"

fun deriv :: "char \<Rightarrow> regex \<Rightarrow> regex" where
  "deriv c Never = Never"
| "deriv c Empty = Never"
| "deriv c (Sym k) = (if in_class k c then Empty else Never)"
| "deriv c (Seq r s) =
     (if nullable r then alt (seq (deriv c r) s) (deriv c s) else seq (deriv c r) s)"
| "deriv c (Alt r s) = alt (deriv c r) (deriv c s)"
| "deriv c (Star r) = seq (deriv c r) (Star r)"

text \<open>
  \<open>re_match r s\<close> says that \<open>re.match(r, s)\<close> finds a match, which is one that starts at
  the first character of \<open>s\<close>; \<open>re_search r s\<close> says that \<open>re.search(r, s)\<close> finds a match,
  which may start anywhere.
\<close>

fun re_match :: "regex \<Rightarrow> string \<Rightarrow> bool" where
  "re_match r [] = nullable r"
| "re_match r (c # cs) = (nullable r \<or> re_match (deriv c r) cs)"

fun re_search :: "regex \<Rightarrow> string \<Rightarrow> bool" where
  "re_search r [] = re_match r []"
| "re_search r (c # cs) = (re_match r (c # cs) \<or> re_search r cs)"

text \<open>The strings that a pattern matches as a whole.\<close>

inductive_set star :: "string set \<Rightarrow> string set" for A :: "string set" where
  star_Nil: "[] \<in> star A"
| star_App: "u \<in> A \<Longrightarrow> v \<in> star A \<Longrightarrow> u @ v \<in> star A"

definition conc :: "string set \<Rightarrow> string set \<Rightarrow> string set" where
  "conc A B = {u @ v | u v. u \<in> A \<and> v \<in> B}"

fun lang :: "regex \<Rightarrow> string set" where
  "lang Never = {}"
| "lang Empty = {[]}"
| "lang (Sym k) = {[c] | c. in_class k c}"
| "lang (Seq r s) = conc (lang r) (lang s)"
| "lang (Alt r s) = lang r \<union> lang s"
| "lang (Star r) = star (lang r)"

section \<open>The statement parser\<close>

text \<open>
  \<open>is_transaction_line\<close> matches
  \<^verbatim>\<open>^[A-Za-z]{3} \d{2}, \d{4} .* (Debit|Credit) INR \d\<close>
  with \<open>re.match\<close>, which anchors the match at the start of the line by itself.
\<close>

definition transaction_line_re :: regex where
  "transaction_line_re =
     seqs [times 3 (Sym Letter), str '' '', times 2 (Sym Digit), str '', '',
           times 4 (Sym Digit), str '' '', Star (Sym AnyChar), str '' '',
           Alt (str ''Debit'') (str ''Credit''), str '' INR '', Sym Digit]"

definition is_transaction_line :: "string \<Rightarrow> bool" where
  "is_transaction_line line = re_match transaction_line_re line"

text \<open>
  The date: \<^verbatim>\<open>^([A-Za-z]{3} \d{2}, \d{4})\<close>. The pattern matches twelve characters, so
  its group is the first twelve characters of the line. \<open>None\<close> stands for no match.
\<close>

definition date_re :: regex where
  "date_re =
     seqs [times 3 (Sym Letter), str '' '', times 2 (Sym Digit), str '', '',
           times 4 (Sym Digit)]"

definition date_match :: "string \<Rightarrow> string option" where
  "date_match line = (if re_match date_re line then Some (take 12 line) else None)"

text \<open>
  \<open>datetime.strptime(date_str, "%b %d, %Y").date()\<close> on a string of the shape that
  \<open>date_re\<close> matches, its only caller's: the month name is looked up without regard to
  case, the day must be 01..31 and exist in that month of that year, and the year must
  be at least 1. \<open>None\<close> stands for the \<open>ValueError\<close>.
\<close>

definition month_abbreviations :: "string list" where
  "month_abbreviations =
     [''jan'', ''feb'', ''mar'', ''apr'', ''may'', ''jun'',
      ''jul'', ''aug'', ''sep'', ''oct'', ''nov'', ''dec'']"

fun index_of :: "'a \<Rightarrow> 'a list \<Rightarrow> nat option" where
  "index_of x [] = None"
| "index_of x (y # ys) = (if x = y then Some 0 else map_option Suc (index_of x ys))"

definition digit_value :: "char \<Rightarrow> nat" where
  "digit_value c = of_char c - 48"

definition digits_value :: "string \<Rightarrow> nat" where
  "digits_value s = foldl (\<lambda>n c. 10 * n + digit_value c) 0 s"

definition is_leap :: "nat \<Rightarrow> bool" where
  "is_leap y = (y mod 4 = 0 \<and> (y mod 100 \<noteq> 0 \<or> y mod 400 = 0))"

definition days_in_month :: "nat \<Rightarrow> nat \<Rightarrow> nat" where
  "days_in_month y m =
     (if m = 2 then (if is_leap y then 29 else 28)
      else if m = 4 \<or> m = 6 \<or> m = 9 \<or> m = 11 then 30 else 31)"

definition strptime :: "string \<Rightarrow> date option" where
  "strptime date_str =
     (case index_of (lower (take 3 date_str)) month_abbreviations of
        None \<Rightarrow> None
      | Some i \<Rightarrow>
          let d = digits_value (take 2 (drop 4 date_str));
              y = digits_value (take 4 (drop 8 date_str))
          in if 1 \<le> y \<and> 1 \<le> d \<and> d \<le> days_in_month y (i + 1)
             then Some \<lparr>year = y, month = i + 1, day = d\<rparr>
             else None)"

text \<open>
  The name. \<open>line.split("Paid to")[1]\<close> is the second piece of the split; \<open>None\<close> stands
  for the \<open>IndexError\<close> of a list that has no such piece.
\<close>

definition extract_name :: "string \<Rightarrow> string option" where
  "extract_name line =
     (if contains line ''Paid to''
      then (case split_sep ''Paid to'' line of
              _ # second # _ \<Rightarrow>
                (case split_sep ''Debit'' second of
                   first # _ \<Rightarrow> Some (strip first)
                 | [] \<Rightarrow> None)
            | _ \<Rightarrow> None)
      else if contains line ''Received from''
      then (case split_sep ''Received from'' line of
              _ # second # _ \<Rightarrow>
                (case split_sep ''Credit'' second of
                   first # _ \<Rightarrow> Some (strip first)
                 | [] \<Rightarrow> None)
            | _ \<Rightarrow> None)
      else Some ''Unknown'')"

definition txn_type :: "string \<Rightarrow> string" where
  "txn_type line = (if contains line ''Debit'' then ''Debit'' else ''Credit'')"

text \<open>
  The amount: \<^verbatim>\<open>INR ([\d,]+\.\d{2})\<close> with \<open>re.search\<close>. \<open>amount_group_at s\<close> is the
  group of a match that starts at the first character of \<open>s\<close>: after \<open>INR\<close> and a blank the
  longest run of digits and commas, which must not be empty, then a full stop and two
  digits. \<open>amount_search\<close> tries the positions of the line from left to right and gives
  the group of the first match.
\<close>

definition amount_re :: regex where
  "amount_re =
     seqs [str ''INR '', Sym DigitOrComma, Star (Sym DigitOrComma), str ''.'',
           times 2 (Sym Digit)]"

definition amount_group_at :: "string \<Rightarrow> string option" where
  "amount_group_at s =
     (if prefix ''INR '' s
      then
        let t = drop 4 s;
            g = takeWhile (in_class DigitOrComma) t
        in (case dropWhile (in_class DigitOrComma) t of
              p # a # b # _ \<Rightarrow>
                if g \<noteq> [] \<and> p = CHR ''.'' \<and> isdigit a \<and> isdigit b
                then Some (g @ [p, a, b]) else None
            | _ \<Rightarrow> None)
      else None)"

fun amount_search :: "string \<Rightarrow> string option" where
  "amount_search [] = None"
| "amount_search (c # cs) =
     (case amount_group_at (c # cs) of
        Some g \<Rightarrow> Some g
      | None \<Rightarrow> amount_search cs)"

text \<open>
  \<open>float(s)\<close> for digits, a full stop and two digits, in hundredths: \<open>float("450.00")\<close> is
  45000 hundredths.
\<close>

definition float_hundredths :: "string \<Rightarrow> nat" where
  "float_hundredths s = digits_value (filter (\<lambda>c. c \<noteq> CHR ''.'') s)"

text \<open>
  The body of the loop over the accepted lines. \<open>None\<close> stands for an exception, which the
  \<open>except\<close> clause answers by reporting the line and going on to the next one.
\<close>

definition parse_line :: "string \<Rightarrow> row option" where
  "parse_line line =
     (case date_match line of
        None \<Rightarrow> None
      | Some date_str \<Rightarrow>
          (case strptime date_str of
             None \<Rightarrow> None
           | Some date \<Rightarrow>
               (case extract_name line of
                  None \<Rightarrow> None
                | Some name \<Rightarrow>
                    Some \<lparr>Date = date, Name = name, DebitCredit = txn_type line,
                          Amount = (case amount_search line of
                                      Some g \<Rightarrow> float_hundredths (filter (\<lambda>c. c \<noteq> CHR '','') g)
                                    | None \<Rightarrow> 0),
                          Category = None\<rparr>)))"

text \<open>
  \<open>parse_phonepe_pdf\<close>, from the texts of the pages on: a page without text has no line
  that is accepted.
\<close>

definition parse_phonepe_pdf :: "string list \<Rightarrow> frame" where
  "parse_phonepe_pdf pages =
     List.map_filter parse_line
       (concat (map (\<lambda>text. filter is_transaction_line (split_sep [CHR 0x0A] text)) pages))"

section \<open>Categorization\<close>

text \<open>
  The inner loop of \<open>categorize_transactions\<close> over \<open>keyword_dict.items()\<close>: the category
  at which the loop breaks, or \<open>None\<close> when it ends with \<open>matched\<close> still false.
\<close>

fun keyword_scan :: "keyword_dict \<Rightarrow> string \<Rightarrow> string option" where
  "keyword_scan [] name_lower = None"
| "keyword_scan ((category, keywords) # rest) name_lower =
     (if list_ex (\<lambda>keyword. contains name_lower (lower keyword)) keywords
      then Some category
      else keyword_scan rest name_lower)"

text \<open>One pass of the outer loop body: the category appended for one name.\<close>

definition categorize_name :: "keyword_dict \<Rightarrow> name_map \<Rightarrow> string \<Rightarrow> string" where
  "categorize_name keyword_dict name_map name =
     (let name_lower = strip (lower name)
      in case map_of name_map name_lower of
           Some category \<Rightarrow> category
         | None \<Rightarrow>
             (case keyword_scan keyword_dict name_lower of
                Some category \<Rightarrow> category
              | None \<Rightarrow> ''Other''))"

fun categories_loop :: "keyword_dict \<Rightarrow> name_map \<Rightarrow> string list \<Rightarrow> string list" where
  "categories_loop keyword_dict name_map [] = []"
| "categories_loop keyword_dict name_map (name # names) =
     categorize_name keyword_dict name_map name
       # categories_loop keyword_dict name_map names"

text \<open>\<open>df["Category"] = categories\<close>: the column is written row by row, in place.\<close>

fun set_category_column :: "frame \<Rightarrow> string list \<Rightarrow> frame" where
  "set_category_column (r # rs) (c # cs) = r\<lparr>Category := Some c\<rparr> # set_category_column rs cs"
| "set_category_column rs cs = []"

text \<open>
  \<open>categorize_transactions\<close> receives three objects by reference. The result gives the
  three objects as they are when the call returns; the returned reference is the first.
\<close>

definition categorize_transactions ::
  "frame \<Rightarrow> keyword_dict \<Rightarrow> name_map \<Rightarrow> frame \<times> keyword_dict \<times> name_map" where
  "categorize_transactions df keyword_dict name_map =
     (set_category_column df (categories_loop keyword_dict name_map (map Name df)),
      keyword_dict, name_map)"

section \<open>Learning from user edits\<close>

text \<open>The two entries of \<open>st.session_state\<close> that the learning step writes.\<close>

record session =
  keyword_dict :: keyword_dict
  name_to_category :: name_map

text \<open>
  The loop \<open>for word in words\<close>: a word that is not yet in
  \<open>keyword_dict[new_cat]\<close> is appended to that list.
\<close>

fun add_words :: "string \<Rightarrow> string list \<Rightarrow> keyword_dict \<Rightarrow> keyword_dict" where
  "add_words new_cat [] kd = kd"
| "add_words new_cat (word # words) kd =
     add_words new_cat words
       (if word \<notin> set (dict_get kd new_cat)
        then dict_set new_cat (dict_get kd new_cat @ [word]) kd
        else kd)"

text \<open>
  The body of the loop over the edited rows, for one row: \<open>old_cat\<close> is the category the
  engine had assigned, \<open>new_cat\<close> and \<open>name\<close> come from the edited row. The state carries
  the session and the flag \<open>changed\<close>.
\<close>

definition learn :: "string \<Rightarrow> string \<Rightarrow> string \<Rightarrow> session \<times> bool \<Rightarrow> session \<times> bool" where
  "learn old_cat new_cat name st =
     (if new_cat \<noteq> old_cat \<and> strip new_cat \<noteq> []
      then
        let s = fst st;
            kd1 = (if \<not> dict_in new_cat (keyword_dict s)
                   then dict_set new_cat [] (keyword_dict s)
                   else keyword_dict s);
            nm1 = dict_set (lower name) new_cat (name_to_category s);
            words = split_whitespace (lower name);
            kd2 = add_words new_cat words kd1
        in (\<lparr>keyword_dict = kd2, name_to_category = nm1\<rparr>, True)
      else st)"

text \<open>
  The loop \<open>for i in range(len(edited_df))\<close>. \<open>None\<close> is an exception: \<open>df.iloc[i]\<close>
  beyond the last row of \<open>df\<close>, or a row without a category string.
\<close>

fun learn_loop :: "frame \<Rightarrow> frame \<Rightarrow> session \<times> bool \<Rightarrow> (session \<times> bool) option" where
  "learn_loop df [] st = Some st"
| "learn_loop [] (e # es) st = None"
| "learn_loop (r # rs) (e # es) st =
     (case (Category r, Category e) of
        (Some old_cat, Some new_cat) \<Rightarrow> learn_loop rs es (learn old_cat new_cat (Name e) st)
      | _ \<Rightarrow> None)"

section \<open>The main flow\<close>

definition debits :: "frame \<Rightarrow> frame" where
  \<comment> \<open>\<open>df[df["Debit/Credit"] == "Debit"].copy()\<close>\<close>
  "debits df = filter (\<lambda>r. DebitCredit r = ''Debit'') df"

datatype outcome =
  NoTransactions
| Raised
| Shown frame session

text \<open>
  \<open>main\<close> from the loaded frame on. \<open>edited\<close> is the frame that the data editor hands
  back. The result \<open>Shown edited_df s\<close> gives the frame that is summarised, exported and
  passed to the chatbot, and the session state. Writing the name map to the database is
  left out.
\<close>

definition main_flow :: "frame \<Rightarrow> frame \<Rightarrow> session \<Rightarrow> outcome" where
  "main_flow loaded edited s =
     (if loaded = [] then NoTransactions
      else
        let debits_df = debits loaded;
            df = fst (categorize_transactions debits_df (keyword_dict s) (name_to_category s))
        in case learn_loop df edited (s, False) of
             None \<Rightarrow> Raised
           | Some (s', changed) \<Rightarrow>
               if changed
               then Shown (fst (categorize_transactions df (keyword_dict s')
                                  (name_to_category s'))) s'
               else Shown edited s')"

section \<open>The export\<close>

text \<open>
  \<open>edited_df.to_csv(index=False)\<close> for a frame as \<open>parse_phonepe_pdf\<close> and
  \<open>categorize_transactions\<close> build it, as a table of cells: the header and one list of
  cells for each row, before the cells are quoted and joined with commas.

  The columns of the frame are the keys of the dictionary that \<open>parse_phonepe_pdf\<close> appends
  for each row, in the order of the literal; \<open>df["Category"] = categories\<close> leaves an
  existing column in its place and puts a new one last.
\<close>

definition parsed_columns :: "string list" where
  "parsed_columns = [''Date'', ''Name'', ''Debit/Credit'', ''Amount'']"

definition assign_column :: "string \<Rightarrow> string list \<Rightarrow> string list" where
  "assign_column c columns = (if c \<in> set columns then columns else columns @ [c])"

definition export_columns :: "string list" where
  "export_columns = assign_column ''Category'' parsed_columns"

text \<open>A date is written by \<open>str\<close>, which is \<open>isoformat\<close>: \<open>'%04d-%02d-%02d'\<close>.\<close>

definition digit_char :: "nat \<Rightarrow> char" where
  "digit_char n = char_of (48 + n mod 10)"

text \<open>\<open>zero_padded w n\<close> is \<open>'%0wd' % n\<close> for a number of at most \<open>w\<close> digits.\<close>

fun zero_padded :: "nat \<Rightarrow> nat \<Rightarrow> string" where
  "zero_padded 0 n = []"
| "zero_padded (Suc w) n = zero_padded w (n div 10) @ [digit_char n]"

definition isoformat :: "date \<Rightarrow> string" where
  "isoformat d =
     zero_padded 4 (year d) @ ''-'' @ zero_padded 2 (month d) @ ''-'' @ zero_padded 2 (day d)"

text \<open>\<open>decimal n\<close> is \<open>str(n)\<close>.\<close>

function decimal :: "nat \<Rightarrow> string" where
  "decimal n = (if n < 10 then [digit_char n] else decimal (n div 10) @ [digit_char n])"
  by pat_completeness auto
termination
  by (relation "measure id") auto

declare decimal.simps [simp del]

text \<open>
  A float is written by \<open>repr\<close>, the shortest numeral that reads back as the same float.
  For an amount of \<open>h\<close> hundredths below \<open>10 ^ 15\<close>, a numeral of at most fifteen significant
  digits, that is the numeral of \<open>h / 100\<close> itself with its last fractional digit left out
  when it is 0. From \<open>10 ^ 15\<close> hundredths on the float no longer fixes every digit of the
  amount, and \<open>repr\<close> turns to the exponent form at \<open>10 ^ 16\<close>; the model gives no text
  there, which is the result \<open>None\<close>.
\<close>

definition float_repr :: "nat \<Rightarrow> string option" where
  "float_repr h =
     (if h < 10 ^ 15
      then Some (decimal (h div 100) @ ''.'' @
                   (if h mod 10 = 0 then [digit_char (h div 10)]
                    else [digit_char (h div 10), digit_char h]))
      else None)"

text \<open>
  The cell of a row under a column, given the text of its amount. A row without a
  category has a missing value there, which is written as the empty text.
\<close>

definition cell :: "row \<Rightarrow> string \<Rightarrow> string \<Rightarrow> string" where
  "cell r amount c =
     (if c = ''Date'' then isoformat (Date r)
      else if c = ''Name'' then Name r
      else if c = ''Debit/Credit'' then DebitCredit r
      else if c = ''Amount'' then amount
      else (case Category r of Some category \<Rightarrow> category | None \<Rightarrow> []))"

definition csv_row :: "row \<Rightarrow> string list option" where
  "csv_row r =
     (case float_repr (Amount r) of
        None \<Rightarrow> None
      | Some amount \<Rightarrow> Some (map (cell r amount) export_columns))"

fun csv_rows :: "frame \<Rightarrow> string list list option" where
  "csv_rows [] = Some []"
| "csv_rows (r # rs) =
     (case csv_row r of
        None \<Rightarrow> None
      | Some cells \<Rightarrow>
          (case csv_rows rs of
             None \<Rightarrow> None
           | Some rows \<Rightarrow> Some (cells # rows)))"

definition to_csv :: "frame \<Rightarrow> string list list option" where
  "to_csv df =
     (case csv_rows df of
        None \<Rightarrow> None
      | Some rows \<Rightarrow> Some (export_columns # rows))"

section \<open>Notions used in the statements\<close>

text \<open>
  A dictionary entry hits a normalized name when one of its keywords, lowercased, is a
  contiguous part of the name.
\<close>

definition keyword_hit :: "string \<times> string list \<Rightarrow> string \<Rightarrow> bool" where
  "keyword_hit entry name_lower =
     list_ex (\<lambda>keyword. sublist (lower keyword) name_lower) (snd entry)"

text \<open>
  A sequence of learning steps, each given by the old category, the new category and the
  name of one edited row.
\<close>

definition learn_calls :: "(string \<times> string \<times> string) list \<Rightarrow> session \<times> bool \<Rightarrow> session \<times> bool" where
  "learn_calls calls st = fold (\<lambda>(old_cat, new_cat, name). learn old_cat new_cat name) calls st"

text \<open>
  The line classifier as the specification words it: the line begins with a date, that
  is a three-letter month abbreviation, a blank, a two-digit day, a comma and a blank, and
  a four-digit year; among the words that follow there is the word \<open>Debit\<close> or \<open>Credit\<close>,
  followed by the word \<open>INR\<close> and by a word that starts with a digit.
\<close>

definition spec_month_abbreviations :: "string list" where
  "spec_month_abbreviations =
     [''Jan'', ''Feb'', ''Mar'', ''Apr'', ''May'', ''Jun'',
      ''Jul'', ''Aug'', ''Sep'', ''Oct'', ''Nov'', ''Dec'']"

definition spec_begins_with_date :: "string \<Rightarrow> bool" where
  "spec_begins_with_date line =
     (take 3 line \<in> set spec_month_abbreviations
      \<and> take 1 (drop 3 line) = '' ''
      \<and> length (take 2 (drop 4 line)) = 2 \<and> list_all isdigit (take 2 (drop 4 line))
      \<and> take 2 (drop 6 line) = '', ''
      \<and> length (take 4 (drop 8 line)) = 4 \<and> list_all isdigit (take 4 (drop 8 line)))"

fun spec_direction_then_amount :: "string list \<Rightarrow> bool" where
  "spec_direction_then_amount (k # i # n # tokens) =
     (((k = ''Debit'' \<or> k = ''Credit'') \<and> i = ''INR'' \<and> list_ex isdigit (take 1 n))
      \<or> spec_direction_then_amount (i # n # tokens))"
| "spec_direction_then_amount tokens = False"

definition spec_line_classifier :: "string \<Rightarrow> bool" where
  "spec_line_classifier line =
     (spec_begins_with_date line
      \<and> spec_direction_then_amount (split_whitespace (drop 12 line)))"

text \<open>
  The first match of the amount pattern in a line: the line is \<open>a\<close>, then \<open>INR\<close>, a blank
  and the group \<open>g\<close>, then \<open>b\<close>, and no match starts at a position inside \<open>a\<close>.
\<close>

definition first_amount_match :: "string \<Rightarrow> string \<Rightarrow> string \<Rightarrow> string \<Rightarrow> bool" where
  "first_amount_match line a g b =
     (line = a @ ''INR '' @ g @ b \<and> ''INR '' @ g \<in> lang amount_re
      \<and> (\<forall>i<length a. \<not> re_match amount_re (drop i line)))"

text \<open>
  The dates that a \<open>datetime.date\<close> can hold.
\<close>

definition valid_date :: "date \<Rightarrow> bool" where
  "valid_date d =
     (1 \<le> year d \<and> year d \<le> 9999 \<and> 1 \<le> month d \<and> month d \<le> 12
      \<and> 1 \<le> day d \<and> day d \<le> days_in_month (year d) (month d))"

text \<open>
  A text is the calendar date \<open>d\<close> in the form of ISO 8601 when it is four digits, a
  hyphen, two digits, a hyphen and two digits, and these read as the year, the month and
  the day of \<open>d\<close>.
\<close>

definition iso_8601_date :: "string \<Rightarrow> date \<Rightarrow> bool" where
  "iso_8601_date s d =
     (length s = 10 \<and> list_all isdigit (take 4 s) \<and> take 1 (drop 4 s) = ''-''
      \<and> list_all isdigit (take 2 (drop 5 s)) \<and> take 1 (drop 7 s) = ''-''
      \<and> list_all isdigit (drop 8 s)
      \<and> digits_value (take 4 s) = year d
      \<and> digits_value (take 2 (drop 5 s)) = month d
      \<and> digits_value (drop 8 s) = day d)"

text \<open>
  A text is the numeral of an amount of \<open>h\<close> hundredths, as the export writes it, when it
  is a whole part without a leading zero, a full stop and a fractional part, of one digit
  when \<open>h\<close> is a whole number of tenths and of two digits otherwise, and these read as
  \<open>h\<close>.
\<close>

definition amount_numeral :: "string \<Rightarrow> nat \<Rightarrow> bool" where
  "amount_numeral s h =
     (let whole = takeWhile (\<lambda>c. c \<noteq> CHR ''.'') s;
          fraction = drop (Suc (length whole)) s
      in s = whole @ ''.'' @ fraction
         \<and> whole \<noteq> [] \<and> list_all isdigit whole \<and> (whole = ''0'' \<or> \<not> prefix ''0'' whole)
         \<and> list_all isdigit fraction
         \<and> length fraction = (if h mod 10 = 0 then 1 else 2)
         \<and> 100 * digits_value whole
             + (if h mod 10 = 0 then 10 * digits_value fraction else digits_value fraction) = h)"

text \<open>
  The format that the specification names for the amount: a numeral with exactly two
  fractional digits.
\<close>

definition spec_two_fraction_digits :: "string \<Rightarrow> bool" where
  "spec_two_fraction_digits s =
     (case rev s of
        b # a # p # ds \<Rightarrow> p = CHR ''.'' \<and> isdigit a \<and> isdigit b \<and> ds \<noteq> [] \<and> list_all isdigit ds
      | _ \<Rightarrow> False)"

section \<open>Properties of categorization\<close>

lemma contains_sublist: "contains s k = sublist k s"
  by (induction s) (simp_all add: sublist_Cons_right)

lemma keyword_scan_Cons:
  "keyword_scan (e # rest) nl = (if keyword_hit e nl then Some (fst e) else keyword_scan rest nl)"
  by (cases e) (simp add: keyword_hit_def contains_sublist)

lemma keyword_scan_first:
  "i < length kd \<Longrightarrow> keyword_hit (kd ! i) nl \<Longrightarrow> (\<forall>j<i. \<not> keyword_hit (kd ! j) nl)
   \<Longrightarrow> keyword_scan kd nl = Some (fst (kd ! i))"
proof (induction kd arbitrary: i)
  case Nil
  then show ?case by simp
next
  case (Cons e rest)
  show ?case
  proof (cases i)
    case 0
    with Cons.prems show ?thesis by (simp add: keyword_scan_Cons)
  next
    case (Suc k)
    have "\<not> keyword_hit e nl" using Cons.prems(3) Suc by auto
    moreover have "keyword_scan rest nl = Some (fst (rest ! k))"
    proof (rule Cons.IH)
      show "k < length rest" using Cons.prems(1) Suc by simp
      show "keyword_hit (rest ! k) nl" using Cons.prems(2) Suc by simp
      show "\<forall>j<k. \<not> keyword_hit (rest ! j) nl"
      proof (intro allI impI)
        fix j assume "j < k"
        then have "Suc j < i" using Suc by simp
        then have "\<not> keyword_hit ((e # rest) ! Suc j) nl" using Cons.prems(3) by blast
        then show "\<not> keyword_hit (rest ! j) nl" by simp
      qed
    qed
    ultimately show ?thesis using Suc by (simp add: keyword_scan_Cons)
  qed
qed

lemma keyword_scan_none:
  "(\<forall>i<length kd. \<not> keyword_hit (kd ! i) nl) \<Longrightarrow> keyword_scan kd nl = None"
proof (induction kd)
  case Nil
  then show ?case by simp
next
  case (Cons e rest)
  have "\<not> keyword_hit e nl" using Cons.prems by auto
  moreover have "\<forall>i<length rest. \<not> keyword_hit (rest ! i) nl"
    using Cons.prems by auto
  ultimately show ?case using Cons.IH by (simp add: keyword_scan_Cons)
qed

lemma keyword_scan_append:
  "keyword_scan kd n = Some c \<Longrightarrow> keyword_scan (kd @ kd2) n = Some c"
  by (induction kd) (auto split: if_splits)

lemma categories_loop_map:
  "categories_loop kd nm names = map (categorize_name kd nm) names"
  by (induction names) simp_all

lemma set_category_column_map:
  "set_category_column df (map (\<lambda>r. f (Name r)) df) = map (\<lambda>r. r\<lparr>Category := Some (f (Name r))\<rparr>) df"
  by (induction df) simp_all

lemma categorize_transactions_rows:
  "fst (categorize_transactions df kd nm)
     = map (\<lambda>r. r\<lparr>Category := Some (categorize_name kd nm (Name r))\<rparr>) df"
  by (simp add: categorize_transactions_def categories_loop_map comp_def set_category_column_map)


text \<open>
  Claim C1. When the normalized name of row \<open>i\<close> (lowercased, then stripped) is a key of
  the name map, the category written to row \<open>i\<close> is the value stored under that key,
  whatever the keyword dictionary holds.
\<close>

theorem categorize_exact_match:
  assumes "i < length df"
      and "map_of nm (strip (lower (Name (df ! i)))) = Some category"
  shows "Category (fst (categorize_transactions df kd nm) ! i) = Some category"
  using assms by (simp add: categorize_transactions_rows categorize_name_def)

theorem categorize_exact_match_witness:
  "(0::nat) < length [\<lparr>Date = \<lparr>year = 2023, month = 7, day = 4\<rparr>, Name = '' Zomato Online'',
                      DebitCredit = ''Debit'', Amount = 45000, Category = None\<rparr>]
   \<and> map_of [(''zomato online'', ''Dining'')]
        (strip (lower (Name ([\<lparr>Date = \<lparr>year = 2023, month = 7, day = 4\<rparr>,
                                Name = '' Zomato Online'', DebitCredit = ''Debit'',
                                Amount = 45000, Category = None\<rparr>] ! 0))))
      = Some ''Dining''
   \<and> Category (fst (categorize_transactions
                      [\<lparr>Date = \<lparr>year = 2023, month = 7, day = 4\<rparr>, Name = '' Zomato Online'',
                        DebitCredit = ''Debit'', Amount = 45000, Category = None\<rparr>]
                      default_keywords [(''zomato online'', ''Dining'')]) ! 0)
      = Some ''Dining''"
proof -
  let ?df = "[\<lparr>Date = \<lparr>year = 2023, month = 7, day = 4\<rparr>, Name = '' Zomato Online'',
               DebitCredit = ''Debit'', Amount = 45000, Category = None\<rparr>]"
  have n: "strip (lower '' Zomato Online'') = ''zomato online''" by code_simp
  have h1: "(0::nat) < length ?df" by simp
  have h2: "map_of [(''zomato online'', ''Dining'')] (strip (lower (Name (?df ! 0))))
              = Some ''Dining''"
    using n by simp
  show ?thesis
    using h1 h2 categorize_exact_match [OF h1 h2, of default_keywords] by simp
qed

text \<open>
  Claim C2. When the normalized name of row \<open>i\<close> is not a key of the name map, the
  dictionary entries are tried in the order of the dictionary: the category of the first
  entry one of whose keywords, lowercased, occurs in the normalized name is written to
  the row; when no entry has such a keyword, \<open>Other\<close> is written.
\<close>

theorem categorize_first_keyword_match:
  assumes "i < length df"
      and "\<not> dict_in (strip (lower (Name (df ! i)))) nm"
  shows "(\<forall>k<length kd.
            keyword_hit (kd ! k) (strip (lower (Name (df ! i)))) \<and>
            (\<forall>j<k. \<not> keyword_hit (kd ! j) (strip (lower (Name (df ! i)))))
            \<longrightarrow> Category (fst (categorize_transactions df kd nm) ! i)
                  = Some (fst (kd ! k)))
       \<and> ((\<forall>k<length kd.
              \<not> keyword_hit (kd ! k) (strip (lower (Name (df ! i)))))
            \<longrightarrow> Category (fst (categorize_transactions df kd nm) ! i)
                  = Some ''Other'')"
proof -
  let ?nl = "strip (lower (Name (df ! i)))"
  have nm: "map_of nm ?nl = None" using assms(2) by (simp add: dict_in_def)
  have cat: "Category (fst (categorize_transactions df kd nm) ! i)
      = Some (case keyword_scan kd ?nl of Some c \<Rightarrow> c | None \<Rightarrow> ''Other'')"
    using assms(1) nm by (simp add: categorize_transactions_rows categorize_name_def)
  show ?thesis
  proof (intro conjI allI impI)
    fix k
    assume "k < length kd"
      and "keyword_hit (kd ! k) ?nl \<and> (\<forall>j<k. \<not> keyword_hit (kd ! j) ?nl)"
    then have "keyword_scan kd ?nl = Some (fst (kd ! k))"
      by (simp add: keyword_scan_first)
    then show "Category (fst (categorize_transactions df kd nm) ! i)
                  = Some (fst (kd ! k))"
      using cat by simp
  next
    assume "\<forall>k<length kd. \<not> keyword_hit (kd ! k) ?nl"
    then have "keyword_scan kd ?nl = None" by (rule keyword_scan_none)
    then show "Category (fst (categorize_transactions df kd nm) ! i) = Some ''Other''"
      using cat by simp
  qed
qed

theorem categorize_first_keyword_match_witness:
  "\<not> dict_in (strip (lower ''Netflix Amazon'')) [(''zomato online'', ''Dining'')]
   \<and> \<not> keyword_hit (''Food'', [''pizza'']) (strip (lower ''Netflix Amazon''))
   \<and> keyword_hit (''Shopping'', [''Amazon'']) (strip (lower ''Netflix Amazon''))
   \<and> keyword_hit (''Entertainment'', [''netflix'']) (strip (lower ''Netflix Amazon''))
   \<and> map Category (fst (categorize_transactions
         [\<lparr>Date = \<lparr>year = 2024, month = 1, day = 15\<rparr>, Name = ''Netflix Amazon'',
           DebitCredit = ''Debit'', Amount = 120050, Category = None\<rparr>,
          \<lparr>Date = \<lparr>year = 2024, month = 1, day = 15\<rparr>, Name = ''John Doe'',
           DebitCredit = ''Debit'', Amount = 120050, Category = None\<rparr>]
         [(''Food'', [''pizza'']), (''Shopping'', [''Amazon'']), (''Entertainment'', [''netflix''])]
         [(''zomato online'', ''Dining'')]))
      = [Some ''Shopping'', Some ''Other'']"
proof -
  let ?df = "[\<lparr>Date = \<lparr>year = 2024, month = 1, day = 15\<rparr>, Name = ''Netflix Amazon'',
               DebitCredit = ''Debit'', Amount = 120050, Category = None\<rparr>,
              \<lparr>Date = \<lparr>year = 2024, month = 1, day = 15\<rparr>, Name = ''John Doe'',
               DebitCredit = ''Debit'', Amount = 120050, Category = None\<rparr>]"
  let ?kd = "[(''Food'', [''pizza'']), (''Shopping'', [''Amazon'']), (''Entertainment'', [''netflix''])]"
  let ?nm = "[(''zomato online'', ''Dining'')]"
  have n0: "strip (lower ''Netflix Amazon'') = ''netflix amazon''" by code_simp
  have n1: "strip (lower ''John Doe'') = ''john doe''" by code_simp
  have a0: "\<not> dict_in ''netflix amazon'' ?nm" and a1: "\<not> dict_in ''john doe'' ?nm"
    by (simp_all add: dict_in_def)
  have h0: "\<not> keyword_hit (''Food'', [''pizza'']) ''netflix amazon''" by code_simp
  have h1: "keyword_hit (''Shopping'', [''Amazon'']) ''netflix amazon''" by code_simp
  have h2: "keyword_hit (''Entertainment'', [''netflix'']) ''netflix amazon''" by code_simp
  have m0: "\<not> keyword_hit (''Food'', [''pizza'']) ''john doe''" by code_simp
  have m1: "\<not> keyword_hit (''Shopping'', [''Amazon'']) ''john doe''" by code_simp
  have m2: "\<not> keyword_hit (''Entertainment'', [''netflix'']) ''john doe''" by code_simp
  have i0: "(0::nat) < length ?df" and i1: "(1::nat) < length ?df" by simp_all
  have b0: "\<not> dict_in (strip (lower (Name (?df ! 0)))) ?nm" using a0 n0 by simp
  have b1: "\<not> dict_in (strip (lower (Name (?df ! 1)))) ?nm" using a1 n1 by simp
  have k1: "(1::nat) < length ?kd" by simp
  have first: "keyword_hit (?kd ! 1) (strip (lower (Name (?df ! 0)))) \<and>
               (\<forall>j<1. \<not> keyword_hit (?kd ! j) (strip (lower (Name (?df ! 0)))))"
    using h0 h1 n0 by simp
  have nohit: "\<forall>k<length ?kd. \<not> keyword_hit (?kd ! k) (strip (lower (Name (?df ! 1))))"
    using m0 m1 m2 n1 by (simp add: less_Suc_eq numeral_3_eq_3)
  have c0: "Category (fst (categorize_transactions ?df ?kd ?nm) ! 0) = Some (fst (?kd ! 1))"
    using categorize_first_keyword_match [OF i0 b0, of ?kd, THEN conjunct1, rule_format, OF k1 first] .
  have c1: "Category (fst (categorize_transactions ?df ?kd ?nm) ! 1) = Some ''Other''"
    using categorize_first_keyword_match [OF i1 b1, of ?kd, THEN conjunct2, THEN mp, OF nohit] .
  have l2: "length (fst (categorize_transactions ?df ?kd ?nm)) = 2"
    by (simp add: categorize_transactions_rows)
  have "map Category (fst (categorize_transactions ?df ?kd ?nm)) = [Some ''Shopping'', Some ''Other'']"
    using c0 c1 l2 by (simp add: list_eq_iff_nth_eq less_Suc_eq numeral_2_eq_2)
  then show ?thesis using a0 h0 h1 h2 n0 by simp
qed

text \<open>
  Claim C10. The category column that \<open>categorize_transactions\<close> writes is determined by
  the name column, the keyword dictionary and the name map: two frames with the same name
  column get the same category column, whatever their dates, amounts and directions.
\<close>

theorem categorize_depends_on_names_only:
  assumes "map Name df1 = map Name df2"
  shows "map Category (fst (categorize_transactions df1 kd nm))
       = map Category (fst (categorize_transactions df2 kd nm))"
proof -
  have "map Category (fst (categorize_transactions df kd nm))
      = map (\<lambda>n. Some (categorize_name kd nm n)) (map Name df)" for df
    by (simp add: categorize_transactions_rows comp_def)
  then show ?thesis by (simp only: assms)
qed

theorem categorize_depends_on_names_only_witness:
  "map Name [\<lparr>Date = \<lparr>year = 2023, month = 7, day = 4\<rparr>, Name = ''Pizza Hut'',
              DebitCredit = ''Debit'', Amount = 45000, Category = None\<rparr>]
     = map Name [\<lparr>Date = \<lparr>year = 2024, month = 1, day = 15\<rparr>, Name = ''Pizza Hut'',
                  DebitCredit = ''Credit'', Amount = 120050, Category = Some ''Rent''\<rparr>]
   \<and> map Category (fst (categorize_transactions
         [\<lparr>Date = \<lparr>year = 2023, month = 7, day = 4\<rparr>, Name = ''Pizza Hut'',
           DebitCredit = ''Debit'', Amount = 45000, Category = None\<rparr>]
         [(''Food'', [''pizza''])] []))
     = map Category (fst (categorize_transactions
         [\<lparr>Date = \<lparr>year = 2024, month = 1, day = 15\<rparr>, Name = ''Pizza Hut'',
           DebitCredit = ''Credit'', Amount = 120050, Category = Some ''Rent''\<rparr>]
         [(''Food'', [''pizza''])] []))"
proof -
  let ?df1 = "[\<lparr>Date = \<lparr>year = 2023, month = 7, day = 4\<rparr>, Name = ''Pizza Hut'',
                DebitCredit = ''Debit'', Amount = 45000, Category = None\<rparr>]"
  let ?df2 = "[\<lparr>Date = \<lparr>year = 2024, month = 1, day = 15\<rparr>, Name = ''Pizza Hut'',
                DebitCredit = ''Credit'', Amount = 120050, Category = Some ''Rent''\<rparr>]"
  have h: "map Name ?df1 = map Name ?df2" by simp
  show ?thesis
    using h categorize_depends_on_names_only [OF h, of "[(''Food'', [''pizza''])]" "[]"]
    by (rule conjI)
qed

text \<open>
  Claim C5, as amended. A call of \<open>categorize_transactions\<close> leaves the keyword dictionary
  and the name map as they were. Of the frame it rewrites the category column and nothing
  else: the rows keep their number, their order and every other field. A second call on
  the frame it returned, with the same dictionary and map, returns the same again.
\<close>

theorem categorize_frame_effect:
  "snd (categorize_transactions df kd nm) = (kd, nm)
   \<and> map (\<lambda>r. r\<lparr>Category := None\<rparr>) (fst (categorize_transactions df kd nm))
       = map (\<lambda>r. r\<lparr>Category := None\<rparr>) df
   \<and> categorize_transactions (fst (categorize_transactions df kd nm)) kd nm
       = categorize_transactions df kd nm"
proof (intro conjI)
  show "snd (categorize_transactions df kd nm) = (kd, nm)"
    by (simp add: categorize_transactions_def)
  show "map (\<lambda>r. r\<lparr>Category := None\<rparr>) (fst (categorize_transactions df kd nm))
       = map (\<lambda>r. r\<lparr>Category := None\<rparr>) df"
    by (simp add: categorize_transactions_rows comp_def)
  have "fst (categorize_transactions (fst (categorize_transactions df kd nm)) kd nm)
          = fst (categorize_transactions df kd nm)"
    by (simp add: categorize_transactions_rows comp_def)
  then show "categorize_transactions (fst (categorize_transactions df kd nm)) kd nm
       = categorize_transactions df kd nm"
    by (simp add: categorize_transactions_def)
qed

text \<open>
  The claim as the specification words it, that the call leaves the frame unchanged,
  fails: the frame passed in has its category column written.
\<close>

theorem categorize_mutates_frame_counterexample:
  "fst (categorize_transactions
          [\<lparr>Date = \<lparr>year = 2023, month = 7, day = 4\<rparr>, Name = ''Zomato Online'',
            DebitCredit = ''Debit'', Amount = 45000, Category = None\<rparr>]
          default_keywords [])
   \<noteq> [\<lparr>Date = \<lparr>year = 2023, month = 7, day = 4\<rparr>, Name = ''Zomato Online'',
            DebitCredit = ''Debit'', Amount = 45000, Category = None\<rparr>]"
  by (simp add: categorize_transactions_def)

section \<open>Properties of learning\<close>

lemma map_of_dict_set: "map_of (dict_set k v d) = (map_of d)(k \<mapsto> v)"
  by (induction d) auto

lemma dict_in_dict_set: "dict_in k' (dict_set k v d) \<longleftrightarrow> k' = k \<or> dict_in k' d"
  by (simp add: dict_in_def map_of_dict_set)

lemma dict_get_dict_set: "dict_get (dict_set k v d) k' = (if k' = k then v else dict_get d k')"
  by (simp add: dict_get_def map_of_dict_set)

lemma dict_set_same: "map_of d k = Some v \<Longrightarrow> dict_set k v d = d"
  by (induction d) (auto split: if_splits)

lemma dict_set_twice: "dict_set k v (dict_set k v d) = dict_set k v d"
  by (rule dict_set_same) (simp add: map_of_dict_set)

lemma keys_dict_set:
  "map fst (dict_set k v d) = (if dict_in k d then map fst d else map fst d @ [k])"
  by (induction d) (auto simp: dict_in_def)

lemma add_words_grows:
  "dict_in c kd \<Longrightarrow>
   dict_in c (add_words n ws kd) \<and> prefix (dict_get kd c) (dict_get (add_words n ws kd) c)"
proof (induction ws arbitrary: kd)
  case Nil
  then show ?case by simp
next
  case (Cons w ws)
  let ?kd' = "if w \<notin> set (dict_get kd n) then dict_set n (dict_get kd n @ [w]) kd else kd"
  have in': "dict_in c ?kd'" using Cons.prems by (simp add: dict_in_dict_set)
  have pre: "prefix (dict_get kd c) (dict_get ?kd' c)"
    by (simp add: dict_get_dict_set)
  from Cons.IH [OF in'] have "dict_in c (add_words n ws ?kd')"
    and "prefix (dict_get ?kd' c) (dict_get (add_words n ws ?kd') c)" by simp_all
  with pre show ?case using prefix_order.trans by auto
qed

lemma add_words_keys:
  "dict_in n kd \<Longrightarrow> map fst (add_words n ws kd) = map fst kd"
proof (induction ws arbitrary: kd)
  case Nil
  then show ?case by simp
next
  case (Cons w ws)
  let ?kd' = "if w \<notin> set (dict_get kd n) then dict_set n (dict_get kd n @ [w]) kd else kd"
  have in': "dict_in n ?kd'" using Cons.prems by (simp add: dict_in_dict_set)
  have "map fst ?kd' = map fst kd" using Cons.prems by (simp add: keys_dict_set)
  with Cons.IH [OF in'] show ?case by simp
qed

lemma add_words_has_words:
  "dict_in n kd \<Longrightarrow> set ws \<subseteq> set (dict_get (add_words n ws kd) n)"
proof (induction ws arbitrary: kd)
  case Nil
  then show ?case by simp
next
  case (Cons w ws)
  let ?kd' = "if w \<notin> set (dict_get kd n) then dict_set n (dict_get kd n @ [w]) kd else kd"
  have in': "dict_in n ?kd'" using Cons.prems by (simp add: dict_in_dict_set)
  have w: "w \<in> set (dict_get ?kd' n)" by (simp add: dict_get_dict_set)
  have "prefix (dict_get ?kd' n) (dict_get (add_words n ws ?kd') n)"
    using add_words_grows [OF in'] by simp
  then have "set (dict_get ?kd' n) \<subseteq> set (dict_get (add_words n ws ?kd') n)"
    by (rule set_mono_prefix)
  with w Cons.IH [OF in'] show ?case by auto
qed

lemma add_words_noop:
  "set ws \<subseteq> set (dict_get kd n) \<Longrightarrow> add_words n ws kd = kd"
  by (induction ws arbitrary: kd) auto

lemma add_words_other:
  "c \<noteq> n \<Longrightarrow> map_of (add_words n ws kd) c = map_of kd c"
  by (induction ws arbitrary: kd) (auto simp: map_of_dict_set)

lemma learn_grows:
  assumes "dict_in c (keyword_dict (fst st))"
  shows "dict_in c (keyword_dict (fst (learn old_cat new_cat name st)))
       \<and> prefix (dict_get (keyword_dict (fst st)) c)
                (dict_get (keyword_dict (fst (learn old_cat new_cat name st))) c)"
proof (cases "new_cat \<noteq> old_cat \<and> strip new_cat \<noteq> []")
  case False
  then show ?thesis using assms by (auto simp: learn_def)
next
  case True
  let ?kd = "keyword_dict (fst st)"
  let ?kd1 = "if \<not> dict_in new_cat ?kd then dict_set new_cat [] ?kd else ?kd"
  have in1: "dict_in c ?kd1" using assms by (simp add: dict_in_dict_set)
  have "c \<noteq> new_cat" if "\<not> dict_in new_cat ?kd" using that assms by auto
  then have pre: "prefix (dict_get ?kd c) (dict_get ?kd1 c)"
    by (simp add: dict_get_dict_set)
  have kd': "keyword_dict (fst (learn old_cat new_cat name st))
               = add_words new_cat (split_whitespace (lower name)) ?kd1"
    using True by (simp add: learn_def Let_def)
  from add_words_grows [OF in1, of new_cat "split_whitespace (lower name)"] pre
  show ?thesis unfolding kd' using prefix_order.trans by blast
qed

lemma learn_calls_grows:
  "dict_in c (keyword_dict (fst st)) \<Longrightarrow>
   dict_in c (keyword_dict (fst (learn_calls calls st)))
   \<and> prefix (dict_get (keyword_dict (fst st)) c)
            (dict_get (keyword_dict (fst (learn_calls calls st))) c)"
proof (induction calls arbitrary: st)
  case Nil
  then show ?case by (simp add: learn_calls_def)
next
  case (Cons call calls)
  obtain old_cat new_cat name where call: "call = (old_cat, new_cat, name)"
    by (cases call) auto
  let ?st1 = "learn old_cat new_cat name st"
  have step: "learn_calls (call # calls) st = learn_calls calls ?st1"
    by (simp add: learn_calls_def call)
  from learn_grows [OF Cons.prems, of old_cat new_cat name]
  have in1: "dict_in c (keyword_dict (fst ?st1))"
    and p1: "prefix (dict_get (keyword_dict (fst st)) c) (dict_get (keyword_dict (fst ?st1)) c)"
    by simp_all
  from Cons.IH [OF in1] p1 show ?case unfolding step using prefix_order.trans by blast
qed

lemma learn_idempotent:
  "learn old_cat new_cat name (learn old_cat new_cat name st) = learn old_cat new_cat name st"
proof (cases "new_cat \<noteq> old_cat \<and> strip new_cat \<noteq> []")
  case False
  then show ?thesis by (auto simp: learn_def)
next
  case True
  let ?kd = "keyword_dict (fst st)"
  let ?kd1 = "if \<not> dict_in new_cat ?kd then dict_set new_cat [] ?kd else ?kd"
  let ?ws = "split_whitespace (lower name)"
  let ?kd2 = "add_words new_cat ?ws ?kd1"
  let ?nm1 = "dict_set (lower name) new_cat (name_to_category (fst st))"
  have l1: "learn old_cat new_cat name st
              = (\<lparr>keyword_dict = ?kd2, name_to_category = ?nm1\<rparr>, True)"
    using True by (simp add: learn_def Let_def)
  have in1: "dict_in new_cat ?kd1" by (simp add: dict_in_dict_set)
  have in2: "dict_in new_cat ?kd2" using add_words_grows [OF in1] by simp
  have ws: "set ?ws \<subseteq> set (dict_get ?kd2 new_cat)" using add_words_has_words [OF in1] .
  have "learn old_cat new_cat name (\<lparr>keyword_dict = ?kd2, name_to_category = ?nm1\<rparr>, True)
          = (\<lparr>keyword_dict = add_words new_cat ?ws ?kd2,
               name_to_category = dict_set (lower name) new_cat ?nm1\<rparr>, True)"
    using True in2 by (simp add: learn_def Let_def)
  also have "\<dots> = (\<lparr>keyword_dict = ?kd2, name_to_category = ?nm1\<rparr>, True)"
    using add_words_noop [OF ws] by (simp add: dict_set_twice)
  finally show ?thesis using l1 by simp
qed

text \<open>
  What one learning step does when the new category differs from the old one and is not
  blank: the new category is in the dictionary afterwards, appended after the existing
  keys when it was absent; the name map holds the new category under the lowercased name;
  every whitespace-separated word of the lowercased name is among the keywords of the new
  category; and the flag \<open>changed\<close> is set. The key of the name map is the lowercased name
  as it stands: it is not stripped.
\<close>

lemma learn_effects:
  assumes "new_cat \<noteq> old_cat" and "strip new_cat \<noteq> []"
  shows "map fst (keyword_dict (fst (learn old_cat new_cat name st)))
           = (if dict_in new_cat (keyword_dict (fst st)) then map fst (keyword_dict (fst st))
              else map fst (keyword_dict (fst st)) @ [new_cat])"
    and "map_of (name_to_category (fst (learn old_cat new_cat name st))) (lower name) = Some new_cat"
    and "set (split_whitespace (lower name))
           \<subseteq> set (dict_get (keyword_dict (fst (learn old_cat new_cat name st))) new_cat)"
    and "snd (learn old_cat new_cat name st)"
proof -
  let ?kd = "keyword_dict (fst st)"
  let ?kd1 = "if \<not> dict_in new_cat ?kd then dict_set new_cat [] ?kd else ?kd"
  let ?ws = "split_whitespace (lower name)"
  have l: "learn old_cat new_cat name st
             = (\<lparr>keyword_dict = add_words new_cat ?ws ?kd1,
                  name_to_category = dict_set (lower name) new_cat (name_to_category (fst st))\<rparr>,
                True)"
    using assms by (simp add: learn_def Let_def)
  have in1: "dict_in new_cat ?kd1" by (simp add: dict_in_dict_set)
  show "map fst (keyword_dict (fst (learn old_cat new_cat name st)))
           = (if dict_in new_cat ?kd then map fst ?kd else map fst ?kd @ [new_cat])"
    unfolding l using add_words_keys [OF in1, of ?ws] by (simp add: keys_dict_set)
  show "map_of (name_to_category (fst (learn old_cat new_cat name st))) (lower name) = Some new_cat"
    unfolding l by (simp add: map_of_dict_set)
  show "set ?ws \<subseteq> set (dict_get (keyword_dict (fst (learn old_cat new_cat name st))) new_cat)"
    unfolding l using add_words_has_words [OF in1, of ?ws] by simp
  show "snd (learn old_cat new_cat name st)" unfolding l by simp
qed

text \<open>
  Claim C3, at an input where the code departs from it. The session starts with the
  default keywords and an empty name map. The row named \<open>'' Zomato''\<close> (with a leading
  blank, as a CSV upload can hold it) is categorized \<open>Food\<close>, and the user changes it to
  \<open>Dining\<close>. The learning step stores the pair under the key \<open>'' zomato''\<close>, not under the
  normalized name \<open>''zomato''\<close> that \<open>categorize_transactions\<close> looks up, so the name map
  has no entry for the normalized name and the row is categorized \<open>Food\<close> again.
\<close>

theorem learn_unstripped_name_failing_input:
  "categorize_name default_keywords [] '' Zomato'' = ''Food''
   \<and> name_to_category (fst (learn ''Food'' ''Dining'' '' Zomato''
        (\<lparr>keyword_dict = default_keywords, name_to_category = []\<rparr>, False)))
      = [('' zomato'', ''Dining'')]
   \<and> strip (lower '' Zomato'') = ''zomato''
   \<and> map_of (name_to_category (fst (learn ''Food'' ''Dining'' '' Zomato''
        (\<lparr>keyword_dict = default_keywords, name_to_category = []\<rparr>, False))))
        (strip (lower '' Zomato'')) = None
   \<and> categorize_name
        (keyword_dict (fst (learn ''Food'' ''Dining'' '' Zomato''
           (\<lparr>keyword_dict = default_keywords, name_to_category = []\<rparr>, False))))
        (name_to_category (fst (learn ''Food'' ''Dining'' '' Zomato''
           (\<lparr>keyword_dict = default_keywords, name_to_category = []\<rparr>, False))))
        '' Zomato''
      = ''Food''"
proof -
  let ?st = "(\<lparr>keyword_dict = default_keywords, name_to_category = []\<rparr>, False)"
  let ?kd' = "default_keywords @ [(''Dining'', [''zomato''])]"
  have lo: "lower '' Zomato'' = '' zomato''" by code_simp
  have st: "strip '' zomato'' = ''zomato''" by code_simp
  have ws: "split_whitespace '' zomato'' = [''zomato'']" by code_simp
  have sd: "strip ''Dining'' = ''Dining''" by code_simp
  have sc: "keyword_scan default_keywords ''zomato'' = Some ''Food''" by code_simp
  have notin: "\<not> dict_in ''Dining'' default_keywords" by (simp add: dict_in_def default_keywords_def)
  have ds: "dict_set ''Dining'' [] default_keywords = default_keywords @ [(''Dining'', [])]"
    by (simp add: default_keywords_def)
  have dg: "dict_get (default_keywords @ [(''Dining'', [])]) ''Dining'' = []"
    by (simp add: dict_get_def default_keywords_def)
  have ds2: "dict_set ''Dining'' [''zomato''] (default_keywords @ [(''Dining'', [])]) = ?kd'"
    by (simp add: default_keywords_def)
  have l: "learn ''Food'' ''Dining'' '' Zomato'' ?st
             = (\<lparr>keyword_dict = ?kd', name_to_category = [('' zomato'', ''Dining'')]\<rparr>, True)"
    by (simp add: learn_def Let_def lo ws sd notin ds dg ds2)
  have sc': "keyword_scan ?kd' ''zomato'' = Some ''Food''"
    using sc by (rule keyword_scan_append)
  have c0: "categorize_name default_keywords [] '' Zomato'' = ''Food''"
    by (simp add: categorize_name_def lo st sc)
  have c1: "categorize_name ?kd' [('' zomato'', ''Dining'')] '' Zomato'' = ''Food''"
    by (simp add: categorize_name_def lo st sc')
  show ?thesis unfolding l using c0 c1 by (simp add: lo st)
qed

text \<open>
  Claim C4. Over any sequence of learning steps every category that is in the keyword
  dictionary stays in it, and its keyword list after the steps starts with its keyword
  list before them: keywords are appended, none is removed or replaced, so the set of
  keywords before is a subset of the set after.
\<close>

theorem learn_keywords_only_grow:
  assumes "dict_in category (keyword_dict (fst st))"
  shows "dict_in category (keyword_dict (fst (learn_calls calls st)))
       \<and> set (dict_get (keyword_dict (fst st)) category)
            \<subseteq> set (dict_get (keyword_dict (fst (learn_calls calls st))) category)
       \<and> prefix (dict_get (keyword_dict (fst st)) category)
                (dict_get (keyword_dict (fst (learn_calls calls st))) category)"
  using learn_calls_grows [OF assms, of calls] by (auto dest: set_mono_prefix)

theorem learn_keywords_only_grow_witness:
  "dict_in ''Food''
     (keyword_dict (fst (\<lparr>keyword_dict = [(''Food'', [''pizza''])], name_to_category = []\<rparr>, False)))
   \<and> dict_in ''Food''
        (keyword_dict (fst (learn_calls
           [(''Food'', ''Dining'', ''Pizza Hut''), (''Other'', ''Food'', ''Cafe Roma'')]
           (\<lparr>keyword_dict = [(''Food'', [''pizza''])], name_to_category = []\<rparr>, False))))
   \<and> prefix [''pizza'']
        (dict_get (keyword_dict (fst (learn_calls
           [(''Food'', ''Dining'', ''Pizza Hut''), (''Other'', ''Food'', ''Cafe Roma'')]
           (\<lparr>keyword_dict = [(''Food'', [''pizza''])], name_to_category = []\<rparr>, False))))
         ''Food'')"
proof -
  let ?st = "(\<lparr>keyword_dict = [(''Food'', [''pizza''])], name_to_category = []\<rparr>, False)"
  have h: "dict_in ''Food'' (keyword_dict (fst ?st))" by (simp add: dict_in_def)
  have g: "dict_get (keyword_dict (fst ?st)) ''Food'' = [''pizza'']" by (simp add: dict_get_def)
  show ?thesis
    using h g learn_keywords_only_grow [OF h,
      of "[(''Food'', ''Dining'', ''Pizza Hut''), (''Other'', ''Food'', ''Cafe Roma'')]"]
    by simp
qed

section \<open>Properties of the main flow\<close>

lemma debits_all_debit: "\<forall>r\<in>set (debits df). DebitCredit r = ''Debit''"
  by (simp add: debits_def)

lemma categorize_keeps_direction:
  "map DebitCredit (fst (categorize_transactions df kd nm)) = map DebitCredit df"
  by (simp add: categorize_transactions_rows comp_def)

lemma categorize_twice:
  "fst (categorize_transactions (fst (categorize_transactions df kd nm)) kd' nm')
     = fst (categorize_transactions df kd' nm')"
  by (simp add: categorize_transactions_rows comp_def)

text \<open>
  Claim C9, as amended. In every run that shows a result, both calls of
  \<open>categorize_transactions\<close> and the learning loop work on the loaded frame filtered to
  the rows whose direction is \<open>Debit\<close>, so every row that is categorized has direction
  \<open>Debit\<close>. When the learning loop changed something, the frame that is summarised and
  exported is that filtered frame categorized again, and all its rows have direction
  \<open>Debit\<close>. Otherwise it is the frame that the data editor handed back, as it is.
\<close>

theorem main_flow_debits_only:
  assumes "main_flow loaded edited s = Shown final s'"
  shows "(\<forall>r\<in>set (debits loaded). DebitCredit r = ''Debit'')
       \<and> (\<exists>changed.
             learn_loop (fst (categorize_transactions (debits loaded) (keyword_dict s)
                                (name_to_category s)))
               edited (s, False) = Some (s', changed)
             \<and> (changed \<longrightarrow>
                  final = fst (categorize_transactions (debits loaded) (keyword_dict s')
                                 (name_to_category s'))
                  \<and> (\<forall>r\<in>set final. DebitCredit r = ''Debit''))
             \<and> (\<not> changed \<longrightarrow> final = edited))"
proof
  show d: "\<forall>r\<in>set (debits loaded). DebitCredit r = ''Debit''" by (rule debits_all_debit)
  let ?df = "fst (categorize_transactions (debits loaded) (keyword_dict s) (name_to_category s))"
  have ne: "loaded \<noteq> []" using assms by (auto simp: main_flow_def)
  obtain s1 changed where ll: "learn_loop ?df edited (s, False) = Some (s1, changed)"
    using assms ne by (auto simp: main_flow_def Let_def split: option.splits)
  have s1: "s1 = s'" using assms ne ll by (auto simp: main_flow_def Let_def split: if_splits)
  have fin: "final = (if changed
                      then fst (categorize_transactions ?df (keyword_dict s') (name_to_category s'))
                      else edited)"
    using assms ne ll by (auto simp: main_flow_def Let_def split: if_splits)
  have c: "changed \<longrightarrow>
             final = fst (categorize_transactions (debits loaded) (keyword_dict s')
                            (name_to_category s'))
             \<and> (\<forall>r\<in>set final. DebitCredit r = ''Debit'')"
  proof
    assume changed
    then have f: "final = fst (categorize_transactions (debits loaded) (keyword_dict s')
                                 (name_to_category s'))"
      using fin by (simp add: categorize_twice)
    then have "map DebitCredit final = map DebitCredit (debits loaded)"
      by (simp add: categorize_keeps_direction)
    then have "set (map DebitCredit final) = set (map DebitCredit (debits loaded))" by simp
    then have "\<forall>r\<in>set final. DebitCredit r = ''Debit''" using d by auto
    with f show "final = fst (categorize_transactions (debits loaded) (keyword_dict s')
                            (name_to_category s'))
             \<and> (\<forall>r\<in>set final. DebitCredit r = ''Debit'')" by simp
  qed
  have u: "\<not> changed \<longrightarrow> final = edited" using fin by simp
  show "\<exists>changed.
             learn_loop ?df edited (s, False) = Some (s', changed)
             \<and> (changed \<longrightarrow>
                  final = fst (categorize_transactions (debits loaded) (keyword_dict s')
                                 (name_to_category s'))
                  \<and> (\<forall>r\<in>set final. DebitCredit r = ''Debit''))
             \<and> (\<not> changed \<longrightarrow> final = edited)"
    using ll s1 c u by blast
qed

theorem main_flow_debits_only_witness:
  "main_flow
     [\<lparr>Date = \<lparr>year = 2023, month = 7, day = 4\<rparr>, Name = ''Pizza Hut'', DebitCredit = ''Debit'', Amount = 45000, Category = None\<rparr>,
      \<lparr>Date = \<lparr>year = 2024, month = 1, day = 15\<rparr>, Name = ''John Doe'', DebitCredit = ''Credit'', Amount = 120050, Category = None\<rparr>]
     [\<lparr>Date = \<lparr>year = 2023, month = 7, day = 4\<rparr>, Name = ''Pizza Hut'', DebitCredit = ''Debit'', Amount = 45000, Category = Some ''Dining''\<rparr>]
     \<lparr>keyword_dict = [(''Food'', [''pizza''])], name_to_category = []\<rparr>
   = Shown [\<lparr>Date = \<lparr>year = 2023, month = 7, day = 4\<rparr>, Name = ''Pizza Hut'', DebitCredit = ''Debit'', Amount = 45000, Category = Some ''Dining''\<rparr>]
      \<lparr>keyword_dict = [(''Food'', [''pizza'']), (''Dining'', [''pizza'', ''hut''])],
       name_to_category = [(''pizza hut'', ''Dining'')]\<rparr>
   \<and> list_all (\<lambda>r. DebitCredit r = ''Debit'')
        (debits
     [\<lparr>Date = \<lparr>year = 2023, month = 7, day = 4\<rparr>, Name = ''Pizza Hut'', DebitCredit = ''Debit'', Amount = 45000, Category = None\<rparr>,
      \<lparr>Date = \<lparr>year = 2024, month = 1, day = 15\<rparr>, Name = ''John Doe'', DebitCredit = ''Credit'', Amount = 120050, Category = None\<rparr>])
   \<and> list_all (\<lambda>r. DebitCredit r = ''Debit'')
        [\<lparr>Date = \<lparr>year = 2023, month = 7, day = 4\<rparr>, Name = ''Pizza Hut'', DebitCredit = ''Debit'', Amount = 45000, Category = Some ''Dining''\<rparr>]
   \<and> [\<lparr>Date = \<lparr>year = 2023, month = 7, day = 4\<rparr>, Name = ''Pizza Hut'', DebitCredit = ''Debit'', Amount = 45000, Category = Some ''Dining''\<rparr>]
      = fst (categorize_transactions
          (debits
     [\<lparr>Date = \<lparr>year = 2023, month = 7, day = 4\<rparr>, Name = ''Pizza Hut'', DebitCredit = ''Debit'', Amount = 45000, Category = None\<rparr>,
      \<lparr>Date = \<lparr>year = 2024, month = 1, day = 15\<rparr>, Name = ''John Doe'', DebitCredit = ''Credit'', Amount = 120050, Category = None\<rparr>])
          [(''Food'', [''pizza'']), (''Dining'', [''pizza'', ''hut''])]
          [(''pizza hut'', ''Dining'')])"
proof -
  let ?r = "\<lparr>Date = \<lparr>year = 2023, month = 7, day = 4\<rparr>, Name = ''Pizza Hut'', DebitCredit = ''Debit'', Amount = 45000, Category = None\<rparr>"
  let ?L = "[\<lparr>Date = \<lparr>year = 2023, month = 7, day = 4\<rparr>, Name = ''Pizza Hut'', DebitCredit = ''Debit'', Amount = 45000, Category = None\<rparr>,
      \<lparr>Date = \<lparr>year = 2024, month = 1, day = 15\<rparr>, Name = ''John Doe'', DebitCredit = ''Credit'', Amount = 120050, Category = None\<rparr>]"
  let ?E = "[\<lparr>Date = \<lparr>year = 2023, month = 7, day = 4\<rparr>, Name = ''Pizza Hut'', DebitCredit = ''Debit'', Amount = 45000, Category = Some ''Dining''\<rparr>]"
  let ?S = "\<lparr>keyword_dict = [(''Food'', [''pizza''])], name_to_category = []\<rparr>"
  let ?S' = "\<lparr>keyword_dict = [(''Food'', [''pizza'']), (''Dining'', [''pizza'', ''hut''])],
       name_to_category = [(''pizza hut'', ''Dining'')]\<rparr>"
  have lo: "lower ''Pizza Hut'' = ''pizza hut''" and lp: "lower ''pizza'' = ''pizza''"
    and lh: "lower ''hut'' = ''hut''"
    by (simp_all add: lower_def lower_char_def char_of_eq_iff)
  have st: "strip ''pizza hut'' = ''pizza hut''" by code_simp
  have ws: "split_whitespace ''pizza hut'' = [''pizza'', ''hut'']" by code_simp
  have sd: "strip ''Dining'' = ''Dining''" by code_simp
  have deb: "debits ?L = [?r]" by (simp add: debits_def)
  have c0: "categorize_name [(''Food'', [''pizza''])] [] ''Pizza Hut'' = ''Food''"
    by (simp add: categorize_name_def lo st lp)
  have df: "fst (categorize_transactions [?r] [(''Food'', [''pizza''])] [])
              = [?r\<lparr>Category := Some ''Food''\<rparr>]"
    by (simp add: categorize_transactions_def c0)
  have l: "learn ''Food'' ''Dining'' ''Pizza Hut'' (?S, False) = (?S', True)"
    by (simp add: learn_def Let_def lo ws sd dict_in_def dict_get_def)
  have c1: "categorize_name (keyword_dict ?S') (name_to_category ?S') ''Pizza Hut'' = ''Dining''"
    by (simp add: categorize_name_def lo st)
  have m: "main_flow ?L ?E ?S = Shown ?E ?S'"
    using deb df l c1 by (simp add: main_flow_def Let_def categorize_transactions_def)
  have ll: "learn_loop (fst (categorize_transactions (debits ?L) (keyword_dict ?S)
                               (name_to_category ?S))) ?E (?S, False) = Some (?S', True)"
    using deb df l by simp
  from main_flow_debits_only [OF m] obtain changed where
    d: "\<forall>r\<in>set (debits ?L). DebitCredit r = ''Debit''"
    and ll': "learn_loop (fst (categorize_transactions (debits ?L) (keyword_dict ?S)
                               (name_to_category ?S))) ?E (?S, False) = Some (?S', changed)"
    and c: "changed \<longrightarrow>
              ?E = fst (categorize_transactions (debits ?L) (keyword_dict ?S')
                          (name_to_category ?S'))
              \<and> (\<forall>r\<in>set ?E. DebitCredit r = ''Debit'')"
    by blast
  from ll ll' have changed by simp
  with c have e: "?E = fst (categorize_transactions (debits ?L) (keyword_dict ?S')
                          (name_to_category ?S'))"
    and a: "\<forall>r\<in>set ?E. DebitCredit r = ''Debit''" by blast+
  have a1: "list_all (\<lambda>r. DebitCredit r = ''Debit'') (debits ?L)"
    using d by (simp only: list_all_iff)
  have a2: "list_all (\<lambda>r. DebitCredit r = ''Debit'') ?E" using a by (simp only: list_all_iff)
  have e': "?E = fst (categorize_transactions (debits ?L)
          [(''Food'', [''pizza'']), (''Dining'', [''pizza'', ''hut''])]
          [(''pizza hut'', ''Dining'')])"
    using e by simp
  show ?thesis using m a1 a2 e' by (intro conjI)
qed

text \<open>
  The claim as the specification words it, for the frame that is summarised and exported,
  fails: the data editor leaves the direction cell open to edits, and when no category
  was changed the edited frame is used unchecked.
\<close>

theorem main_flow_exports_edited_credit_counterexample:
  "main_flow
     [\<lparr>Date = \<lparr>year = 2023, month = 7, day = 4\<rparr>, Name = ''Pizza Hut'', DebitCredit = ''Debit'', Amount = 45000, Category = None\<rparr>]
     [\<lparr>Date = \<lparr>year = 2023, month = 7, day = 4\<rparr>, Name = ''Pizza Hut'', DebitCredit = ''Credit'', Amount = 45000, Category = Some ''Food''\<rparr>]
     \<lparr>keyword_dict = [(''Food'', [''pizza''])], name_to_category = []\<rparr>
   = Shown
      [\<lparr>Date = \<lparr>year = 2023, month = 7, day = 4\<rparr>, Name = ''Pizza Hut'', DebitCredit = ''Credit'', Amount = 45000, Category = Some ''Food''\<rparr>]
      \<lparr>keyword_dict = [(''Food'', [''pizza''])], name_to_category = []\<rparr>
   \<and> DebitCredit
        \<lparr>Date = \<lparr>year = 2023, month = 7, day = 4\<rparr>, Name = ''Pizza Hut'', DebitCredit = ''Credit'', Amount = 45000, Category = Some ''Food''\<rparr>
      = ''Credit''"
proof -
  let ?r = "\<lparr>Date = \<lparr>year = 2023, month = 7, day = 4\<rparr>, Name = ''Pizza Hut'', DebitCredit = ''Debit'', Amount = 45000, Category = None\<rparr>"
  let ?e = "\<lparr>Date = \<lparr>year = 2023, month = 7, day = 4\<rparr>, Name = ''Pizza Hut'', DebitCredit = ''Credit'', Amount = 45000, Category = Some ''Food''\<rparr>"
  let ?S = "\<lparr>keyword_dict = [(''Food'', [''pizza''])], name_to_category = []\<rparr>"
  have lo: "lower ''Pizza Hut'' = ''pizza hut''" and lp: "lower ''pizza'' = ''pizza''"
    by (simp_all add: lower_def lower_char_def char_of_eq_iff)
  have st: "strip ''pizza hut'' = ''pizza hut''" by code_simp
  have deb: "debits [?r] = [?r]" by (simp add: debits_def)
  have c0: "categorize_name [(''Food'', [''pizza''])] [] ''Pizza Hut'' = ''Food''"
    by (simp add: categorize_name_def lo st lp)
  have df: "fst (categorize_transactions [?r] [(''Food'', [''pizza''])] [])
              = [?r\<lparr>Category := Some ''Food''\<rparr>]"
    by (simp add: categorize_transactions_def c0)
  have l: "learn ''Food'' ''Food'' ''Pizza Hut'' (?S, False) = (?S, False)"
    by (simp add: learn_def)
  have m: "main_flow [?r] [?e] ?S = Shown [?e] ?S"
    using deb df l by (simp add: main_flow_def Let_def)
  have k: "DebitCredit ?e = ''Credit''" by simp
  show ?thesis using m k by (rule conjI)
qed


section \<open>Properties of regular expressions\<close>

lemma conc_iff: "w \<in> conc A B \<longleftrightarrow> (\<exists>u v. w = u @ v \<and> u \<in> A \<and> v \<in> B)"
  by (auto simp: conc_def)

lemma nullable_lang: "nullable r \<longleftrightarrow> [] \<in> lang r"
  by (induction r) (auto simp: conc_iff intro: star_Nil)

lemma lang_seq: "lang (seq r s) = conc (lang r) (lang s)"
  by (cases r) (auto simp: conc_iff)

lemma lang_alt: "lang (alt r s) = lang r \<union> lang s"
  by (cases r; cases s) auto

lemma conc_Cons:
  "c # w \<in> conc A B \<longleftrightarrow>
     ([] \<in> A \<and> c # w \<in> B) \<or> (\<exists>u v. w = u @ v \<and> c # u \<in> A \<and> v \<in> B)"
proof
  assume "c # w \<in> conc A B"
  then obtain u v where uv: "c # w = u @ v" "u \<in> A" "v \<in> B" by (auto simp: conc_iff)
  show "([] \<in> A \<and> c # w \<in> B) \<or> (\<exists>u v. w = u @ v \<and> c # u \<in> A \<and> v \<in> B)"
  proof (cases u)
    case Nil
    with uv show ?thesis by simp
  next
    case (Cons a u')
    with uv have "w = u' @ v" "c # u' \<in> A" by simp_all
    with uv(3) show ?thesis by blast
  qed
next
  assume "([] \<in> A \<and> c # w \<in> B) \<or> (\<exists>u v. w = u @ v \<and> c # u \<in> A \<and> v \<in> B)"
  then show "c # w \<in> conc A B"
  proof
    assume "[] \<in> A \<and> c # w \<in> B"
    then have "[] @ (c # w) \<in> conc A B" unfolding conc_iff by blast
    then show ?thesis by simp
  next
    assume "\<exists>u v. w = u @ v \<and> c # u \<in> A \<and> v \<in> B"
    then obtain u v where "w = u @ v" "c # u \<in> A" "v \<in> B" by blast
    then have "(c # u) @ v \<in> conc A B" unfolding conc_iff by blast
    then show ?thesis using \<open>w = u @ v\<close> by simp
  qed
qed

lemma star_Cons_split:
  assumes "x \<in> star A" and "x = c # w"
  shows "\<exists>u v. w = u @ v \<and> c # u \<in> A \<and> v \<in> star A"
  using assms
proof (induction arbitrary: w rule: star.induct)
  case star_Nil
  then show ?case by simp
next
  case (star_App u v)
  show ?case
  proof (cases u)
    case Nil
    with star_App.prems have "v = c # w" by simp
    then show ?thesis by (rule star_App.IH)
  next
    case (Cons a u')
    with star_App.prems have "w = u' @ v" "c # u' = u" by simp_all
    with star_App.hyps show ?thesis by blast
  qed
qed

lemma star_Cons:
  "c # w \<in> star A \<longleftrightarrow> (\<exists>u v. w = u @ v \<and> c # u \<in> A \<and> v \<in> star A)"
proof
  assume "c # w \<in> star A"
  then show "\<exists>u v. w = u @ v \<and> c # u \<in> A \<and> v \<in> star A"
    by (rule star_Cons_split) simp
next
  assume "\<exists>u v. w = u @ v \<and> c # u \<in> A \<and> v \<in> star A"
  then obtain u v where "w = u @ v" "c # u \<in> A" "v \<in> star A" by blast
  then have "(c # u) @ v \<in> star A" by (intro star_App)
  then show "c # w \<in> star A" using \<open>w = u @ v\<close> by simp
qed

lemma deriv_lang: "w \<in> lang (deriv c r) \<longleftrightarrow> c # w \<in> lang r"
proof (induction r arbitrary: w)
  case (Seq r s)
  have right: "c # w \<in> lang (Seq r s) \<longleftrightarrow>
      ([] \<in> lang r \<and> c # w \<in> lang s) \<or> (\<exists>u v. w = u @ v \<and> c # u \<in> lang r \<and> v \<in> lang s)"
    by (simp add: conc_Cons)
  have left: "w \<in> lang (deriv c (Seq r s)) \<longleftrightarrow>
      ([] \<in> lang r \<and> w \<in> lang (deriv c s))
      \<or> (\<exists>u v. w = u @ v \<and> u \<in> lang (deriv c r) \<and> v \<in> lang s)"
    by (auto simp: lang_alt lang_seq conc_iff nullable_lang)
  show ?case unfolding left right by (simp add: Seq.IH)
next
  case (Star r)
  have "w \<in> lang (deriv c (Star r)) \<longleftrightarrow>
      (\<exists>u v. w = u @ v \<and> u \<in> lang (deriv c r) \<and> v \<in> star (lang r))"
    by (simp add: lang_seq conc_iff)
  then show ?case by (simp add: star_Cons Star.IH)
qed (auto simp: lang_alt)

lemma re_match_lang: "re_match r s \<longleftrightarrow> (\<exists>p q. s = p @ q \<and> p \<in> lang r)"
proof (induction s arbitrary: r)
  case Nil
  then show ?case by (simp add: nullable_lang)
next
  case (Cons c cs)
  have "(\<exists>p q. c # cs = p @ q \<and> p \<in> lang r)
        \<longleftrightarrow> [] \<in> lang r \<or> (\<exists>p q. cs = p @ q \<and> c # p \<in> lang r)"
    by (auto simp: Cons_eq_append_conv)
  then show ?case using Cons.IH [of "deriv c r"] by (simp add: nullable_lang deriv_lang)
qed

lemma re_search_lang: "re_search r s \<longleftrightarrow> (\<exists>a p q. s = a @ p @ q \<and> p \<in> lang r)"
proof (induction s)
  case Nil
  then show ?case by (simp add: nullable_lang)
next
  case (Cons c cs)
  have "(\<exists>a p q. c # cs = a @ p @ q \<and> p \<in> lang r)
        \<longleftrightarrow> (\<exists>p q. c # cs = p @ q \<and> p \<in> lang r) \<or> (\<exists>a p q. cs = a @ p @ q \<and> p \<in> lang r)"
    (is "?L \<longleftrightarrow> ?M \<or> ?R")
  proof
    assume ?L
    then obtain a p q where e: "c # cs = a @ p @ q" "p \<in> lang r" by blast
    show "?M \<or> ?R"
    proof (cases a)
      case Nil
      with e show ?thesis by auto
    next
      case (Cons x a')
      with e have "cs = a' @ p @ q" by simp
      with e(2) show ?thesis by blast
    qed
  next
    assume "?M \<or> ?R"
    then show ?L
    proof
      assume ?M
      then obtain p q where "c # cs = [] @ p @ q" "p \<in> lang r" by auto
      then show ?L by blast
    next
      assume ?R
      then obtain a p q where "cs = a @ p @ q" "p \<in> lang r" by blast
      then have "c # cs = (c # a) @ p @ q" by simp
      then show ?L using \<open>p \<in> lang r\<close> by blast
    qed
  qed
  then show ?case using Cons.IH by (simp only: re_search.simps re_match_lang)
qed

lemma conc_Nil_left: "conc {[]} B = B"
  by (auto simp: conc_iff)

lemma conc_Sym:
  "w \<in> conc {[c] | c. in_class k c} B \<longleftrightarrow> (\<exists>c v. w = c # v \<and> in_class k c \<and> v \<in> B)"
proof
  assume "w \<in> conc {[c] | c. in_class k c} B"
  then obtain u v where "w = u @ v" "u \<in> {[c] | c. in_class k c}" "v \<in> B"
    unfolding conc_iff by blast
  then obtain c where "u = [c]" "in_class k c" by blast
  with \<open>w = u @ v\<close> \<open>v \<in> B\<close> show "\<exists>c v. w = c # v \<and> in_class k c \<and> v \<in> B" by simp
next
  assume "\<exists>c v. w = c # v \<and> in_class k c \<and> v \<in> B"
  then obtain c v where "w = [c] @ v" "in_class k c" "v \<in> B" by auto
  moreover have "[c] \<in> {[c] | c. in_class k c}" using \<open>in_class k c\<close> by blast
  ultimately show "w \<in> conc {[c] | c. in_class k c} B" unfolding conc_iff by blast
qed

lemma conc_single: "w \<in> conc {[a]} B \<longleftrightarrow> (\<exists>v. w = a # v \<and> v \<in> B)"
  by (auto simp: conc_iff)

lemma lang_str: "lang (str s) = {s}"
proof (induction s)
  case Nil
  show ?case by simp
next
  case (Cons a s)
  show ?case
  proof (rule set_eqI)
    fix w
    show "w \<in> lang (str (a # s)) \<longleftrightarrow> w \<in> {a # s}"
      by (simp add: conc_single Cons.IH)
  qed
qed

lemma lang_times_Sym:
  "lang (times n (Sym k)) = {w. length w = n \<and> list_all (in_class k) w}"
proof (induction n)
  case 0
  show ?case by auto
next
  case (Suc n)
  show ?case
  proof (rule set_eqI)
    fix w
    have "w \<in> lang (times (Suc n) (Sym k))
          \<longleftrightarrow> (\<exists>c v. w = c # v \<and> in_class k c \<and> length v = n \<and> list_all (in_class k) v)"
      by (simp add: conc_Sym Suc.IH)
    also have "\<dots> \<longleftrightarrow> length w = Suc n \<and> list_all (in_class k) w"
      by (cases w) auto
    finally show "w \<in> lang (times (Suc n) (Sym k))
        \<longleftrightarrow> w \<in> {w. length w = Suc n \<and> list_all (in_class k) w}" by simp
  qed
qed

lemma star_Sym: "star {[c] | c. in_class k c} = {w. list_all (in_class k) w}"
proof (rule set_eqI)
  fix w
  show "w \<in> star {[c] | c. in_class k c} \<longleftrightarrow> w \<in> {w. list_all (in_class k) w}"
  proof
    assume "w \<in> star {[c] | c. in_class k c}"
    then show "w \<in> {w. list_all (in_class k) w}"
      by (induction rule: star.induct) auto
  next
    assume "w \<in> {w. list_all (in_class k) w}"
    then have "list_all (in_class k) w" by simp
    then show "w \<in> star {[c] | c. in_class k c}"
    proof (induction w)
      case Nil
      show ?case by (rule star_Nil)
    next
      case (Cons c cs)
      then have "[c] \<in> {[c] | c. in_class k c}" and "cs \<in> star {[c] | c. in_class k c}" by auto
      then have "[c] @ cs \<in> star {[c] | c. in_class k c}" by (rule star_App)
      then show ?case by simp
    qed
  qed
qed


lemma seqs_ConsD:
  "w \<in> lang (seqs (r # rs)) \<Longrightarrow> \<exists>u v. w = u @ v \<and> u \<in> lang r \<and> v \<in> lang (seqs rs)"
  by (simp add: conc_iff)

lemma seqs_ConsI: "u \<in> lang r \<Longrightarrow> v \<in> lang (seqs rs) \<Longrightarrow> u @ v \<in> lang (seqs (r # rs))"
  by (auto simp: conc_iff)

lemma in_lang_str: "u \<in> lang (str s) \<longleftrightarrow> u = s"
  by (simp add: lang_str)

lemma in_lang_times: "u \<in> lang (times n (Sym k)) \<longleftrightarrow> length u = n \<and> list_all (in_class k) u"
  by (simp add: lang_times_Sym)

lemma in_lang_Star_Sym: "u \<in> lang (Star (Sym k)) \<longleftrightarrow> list_all (in_class k) u"
  by (simp add: star_Sym)

lemma in_lang_Alt_str: "u \<in> lang (Alt (str a) (str b)) \<longleftrightarrow> u = a \<or> u = b"
  by (auto simp: lang_str)

lemma in_lang_Sym: "u \<in> lang (Sym k) \<longleftrightarrow> (\<exists>c. u = [c] \<and> in_class k c)"
  by auto

lemma in_class_fun:
  "in_class Letter = isletter" "in_class Digit = isdigit"
  "in_class AnyChar = (\<lambda>c. c \<noteq> CHR 0x0A)"
  by (simp_all add: fun_eq_iff)

section \<open>Properties of the line classifier\<close>

lemma transaction_line_lang:
  "p \<in> lang transaction_line_re \<longleftrightarrow>
     (\<exists>mon dd yyyy mid kind n.
        p = mon @ '' '' @ dd @ '', '' @ yyyy @ '' '' @ mid @ '' '' @ kind @ '' INR '' @ [n]
        \<and> length mon = 3 \<and> list_all isletter mon
        \<and> length dd = 2 \<and> list_all isdigit dd
        \<and> length yyyy = 4 \<and> list_all isdigit yyyy
        \<and> list_all (\<lambda>c. c \<noteq> CHR 0x0A) mid
        \<and> (kind = ''Debit'' \<or> kind = ''Credit'')
        \<and> isdigit n)"
  (is "?L \<longleftrightarrow> ?R")
proof
  assume L: ?L
  from seqs_ConsD [OF L [unfolded transaction_line_re_def]] obtain u1 v1 where e1: "p = u1 @ v1"
    and m1: "u1 \<in> lang (times 3 (Sym Letter))" and r1: "v1 \<in> lang (seqs [str '' '', times 2 (Sym Digit), str '', '', times 4 (Sym Digit), str '' '', Star (Sym AnyChar), str '' '', Alt (str ''Debit'') (str ''Credit''), str '' INR '', Sym Digit])" by blast
  from seqs_ConsD [OF r1] obtain u2 v2 where e2: "v1 = u2 @ v2"
    and m2: "u2 \<in> lang (str '' '')" and r2: "v2 \<in> lang (seqs [times 2 (Sym Digit), str '', '', times 4 (Sym Digit), str '' '', Star (Sym AnyChar), str '' '', Alt (str ''Debit'') (str ''Credit''), str '' INR '', Sym Digit])" by blast
  from seqs_ConsD [OF r2] obtain u3 v3 where e3: "v2 = u3 @ v3"
    and m3: "u3 \<in> lang (times 2 (Sym Digit))" and r3: "v3 \<in> lang (seqs [str '', '', times 4 (Sym Digit), str '' '', Star (Sym AnyChar), str '' '', Alt (str ''Debit'') (str ''Credit''), str '' INR '', Sym Digit])" by blast
  from seqs_ConsD [OF r3] obtain u4 v4 where e4: "v3 = u4 @ v4"
    and m4: "u4 \<in> lang (str '', '')" and r4: "v4 \<in> lang (seqs [times 4 (Sym Digit), str '' '', Star (Sym AnyChar), str '' '', Alt (str ''Debit'') (str ''Credit''), str '' INR '', Sym Digit])" by blast
  from seqs_ConsD [OF r4] obtain u5 v5 where e5: "v4 = u5 @ v5"
    and m5: "u5 \<in> lang (times 4 (Sym Digit))" and r5: "v5 \<in> lang (seqs [str '' '', Star (Sym AnyChar), str '' '', Alt (str ''Debit'') (str ''Credit''), str '' INR '', Sym Digit])" by blast
  from seqs_ConsD [OF r5] obtain u6 v6 where e6: "v5 = u6 @ v6"
    and m6: "u6 \<in> lang (str '' '')" and r6: "v6 \<in> lang (seqs [Star (Sym AnyChar), str '' '', Alt (str ''Debit'') (str ''Credit''), str '' INR '', Sym Digit])" by blast
  from seqs_ConsD [OF r6] obtain u7 v7 where e7: "v6 = u7 @ v7"
    and m7: "u7 \<in> lang (Star (Sym AnyChar))" and r7: "v7 \<in> lang (seqs [str '' '', Alt (str ''Debit'') (str ''Credit''), str '' INR '', Sym Digit])" by blast
  from seqs_ConsD [OF r7] obtain u8 v8 where e8: "v7 = u8 @ v8"
    and m8: "u8 \<in> lang (str '' '')" and r8: "v8 \<in> lang (seqs [Alt (str ''Debit'') (str ''Credit''), str '' INR '', Sym Digit])" by blast
  from seqs_ConsD [OF r8] obtain u9 v9 where e9: "v8 = u9 @ v9"
    and m9: "u9 \<in> lang (Alt (str ''Debit'') (str ''Credit''))" and r9: "v9 \<in> lang (seqs [str '' INR '', Sym Digit])" by blast
  from seqs_ConsD [OF r9] obtain u10 v10 where e10: "v9 = u10 @ v10"
    and m10: "u10 \<in> lang (str '' INR '')" and r10: "v10 \<in> lang (seqs [Sym Digit])" by blast
  from seqs_ConsD [OF r10] obtain u11 v11 where e11: "v10 = u11 @ v11"
    and m11: "u11 \<in> lang (Sym Digit)" and r11: "v11 \<in> lang (seqs [])" by blast
  have v11: "v11 = []" using r11 by simp
  from m11 obtain n where n: "u11 = [n]" "isdigit n" unfolding in_lang_Sym by auto
  have mon: "length u1 = 3" "list_all isletter u1" using m1 unfolding in_lang_times in_class_fun by simp_all
  have dd: "length u3 = 2" "list_all isdigit u3" using m3 unfolding in_lang_times in_class_fun by simp_all
  have yyyy: "length u5 = 4" "list_all isdigit u5" using m5 unfolding in_lang_times in_class_fun by simp_all
  have mid: "list_all (\<lambda>c. c \<noteq> CHR 0x0A) u7" using m7 unfolding in_lang_Star_Sym in_class_fun by simp
  have kind: "u9 = ''Debit'' \<or> u9 = ''Credit''" using m9 unfolding in_lang_Alt_str .
  have lits: "u2 = '' ''" "u4 = '', ''" "u6 = '' ''" "u8 = '' ''" "u10 = '' INR ''"
    using m2 m4 m6 m8 m10 unfolding in_lang_str by simp_all
  have "p = u1 @ '' '' @ u3 @ '', '' @ u5 @ '' '' @ u7 @ '' '' @ u9 @ '' INR '' @ [n]"
    unfolding e1 e2 e3 e4 e5 e6 e7 e8 e9 e10 e11 v11 lits n(1) by simp
  with mon dd yyyy mid kind n(2) show ?R by blast
next
  assume ?R
  then obtain mon dd yyyy mid kind n where
    p: "p = mon @ '' '' @ dd @ '', '' @ yyyy @ '' '' @ mid @ '' '' @ kind @ '' INR '' @ [n]"
    and h: "length mon = 3" "list_all isletter mon" "length dd = 2" "list_all isdigit dd"
      "length yyyy = 4" "list_all isdigit yyyy" "list_all (\<lambda>c. c \<noteq> CHR 0x0A) mid"
      "kind = ''Debit'' \<or> kind = ''Credit''" "isdigit n"
    by blast
  have m1: "mon \<in> lang (times 3 (Sym Letter))" using h(1,2) unfolding in_lang_times in_class_fun by simp
  have m3: "dd \<in> lang (times 2 (Sym Digit))" using h(3,4) unfolding in_lang_times in_class_fun by simp
  have m5: "yyyy \<in> lang (times 4 (Sym Digit))" using h(5,6) unfolding in_lang_times in_class_fun by simp
  have m7: "mid \<in> lang (Star (Sym AnyChar))" using h(7) unfolding in_lang_Star_Sym in_class_fun by simp
  have m9: "kind \<in> lang (Alt (str ''Debit'') (str ''Credit''))"
    using h(8) unfolding in_lang_Alt_str .
  have m11: "[n] \<in> lang (Sym Digit)" using h(9) unfolding in_lang_Sym by simp
  have sp: "'' '' \<in> lang (str '' '')" and cm: "'', '' \<in> lang (str '', '')"
    and inr: "'' INR '' \<in> lang (str '' INR '')" unfolding in_lang_str by simp_all
  have nil: "[] \<in> lang (seqs [])" by simp
  have "mon @ '' '' @ dd @ '', '' @ yyyy @ '' '' @ mid @ '' '' @ kind @ '' INR '' @ [n] @ []
          \<in> lang transaction_line_re"
    unfolding transaction_line_re_def
    by (intro seqs_ConsI m1 sp m3 cm m5 m7 m9 inr m11 nil)
  then show ?L using p by simp
qed

lemma transaction_line_shape:
  "is_transaction_line line \<longleftrightarrow>
     (\<exists>mon dd yyyy mid kind n rest.
        line = mon @ '' '' @ dd @ '', '' @ yyyy @ '' '' @ mid @ '' '' @ kind @ '' INR '' @ [n] @ rest
        \<and> length mon = 3 \<and> list_all isletter mon
        \<and> length dd = 2 \<and> list_all isdigit dd
        \<and> length yyyy = 4 \<and> list_all isdigit yyyy
        \<and> list_all (\<lambda>c. c \<noteq> CHR 0x0A) mid
        \<and> (kind = ''Debit'' \<or> kind = ''Credit'')
        \<and> isdigit n)"
  (is "?L \<longleftrightarrow> ?R")
proof
  assume ?L
  then obtain p rest where l: "line = p @ rest" and "p \<in> lang transaction_line_re"
    unfolding is_transaction_line_def re_match_lang by blast
  then obtain mon dd yyyy mid kind n where
    p: "p = mon @ '' '' @ dd @ '', '' @ yyyy @ '' '' @ mid @ '' '' @ kind @ '' INR '' @ [n]"
    and h: "length mon = 3" "list_all isletter mon" "length dd = 2" "list_all isdigit dd"
      "length yyyy = 4" "list_all isdigit yyyy" "list_all (\<lambda>c. c \<noteq> CHR 0x0A) mid"
      "kind = ''Debit'' \<or> kind = ''Credit''" "isdigit n"
    unfolding transaction_line_lang by blast
  have "line = mon @ '' '' @ dd @ '', '' @ yyyy @ '' '' @ mid @ '' '' @ kind @ '' INR '' @ [n] @ rest"
    unfolding l p by simp
  with h show ?R by blast
next
  assume ?R
  then obtain mon dd yyyy mid kind n rest where
    l: "line = mon @ '' '' @ dd @ '', '' @ yyyy @ '' '' @ mid @ '' '' @ kind @ '' INR '' @ [n] @ rest"
    and h: "length mon = 3" "list_all isletter mon" "length dd = 2" "list_all isdigit dd"
      "length yyyy = 4" "list_all isdigit yyyy" "list_all (\<lambda>c. c \<noteq> CHR 0x0A) mid"
      "kind = ''Debit'' \<or> kind = ''Credit''" "isdigit n"
    by blast
  let ?p = "mon @ '' '' @ dd @ '', '' @ yyyy @ '' '' @ mid @ '' '' @ kind @ '' INR '' @ [n]"
  have "?p \<in> lang transaction_line_re" unfolding transaction_line_lang using h by blast
  moreover have "line = ?p @ rest" unfolding l by simp
  ultimately show ?L unfolding is_transaction_line_def re_match_lang by blast
qed

text \<open>
  Claim C6, as amended. \<open>is_transaction_line\<close> accepts a line exactly when the line is made
  of three letters A..Z or a..z (any three, not only the abbreviation of a month), a blank,
  two digits, a comma and a blank, four digits, a blank, any text without a line feed, a
  blank, \<open>Debit\<close> or \<open>Credit\<close>, a blank, \<open>INR\<close>, a blank and a digit, followed by anything.
  It is a function of the line alone.
\<close>

theorem is_transaction_line_iff:
  "is_transaction_line line \<longleftrightarrow>
     (\<exists>mon dd yyyy mid kind n rest.
        line = mon @ '' '' @ dd @ '', '' @ yyyy @ '' '' @ mid @ '' '' @ kind @ '' INR '' @ [n] @ rest
        \<and> length mon = 3 \<and> list_all isletter mon
        \<and> length dd = 2 \<and> list_all isdigit dd
        \<and> length yyyy = 4 \<and> list_all isdigit yyyy
        \<and> list_all (\<lambda>c. c \<noteq> CHR 0x0A) mid
        \<and> (kind = ''Debit'' \<or> kind = ''Credit'')
        \<and> isdigit n)"
  by (rule transaction_line_shape)

theorem is_transaction_line_iff_witness:
  "is_transaction_line ''Jul 04, 2023 Paid to Zomato Online Debit INR 450.00''
   \<and> (\<exists>mon dd yyyy mid kind n rest.
        ''Jul 04, 2023 Paid to Zomato Online Debit INR 450.00''
          = mon @ '' '' @ dd @ '', '' @ yyyy @ '' '' @ mid @ '' '' @ kind @ '' INR '' @ [n] @ rest
        \<and> length mon = 3 \<and> list_all isletter mon
        \<and> length dd = 2 \<and> list_all isdigit dd
        \<and> length yyyy = 4 \<and> list_all isdigit yyyy
        \<and> list_all (\<lambda>c. c \<noteq> CHR 0x0A) mid
        \<and> (kind = ''Debit'' \<or> kind = ''Credit'')
        \<and> isdigit n)"
proof -
  have a: "is_transaction_line ''Jul 04, 2023 Paid to Zomato Online Debit INR 450.00''"
    by code_simp
  show ?thesis using a iffD1 [OF is_transaction_line_iff a] by (rule conjI)
qed

text \<open>
  The claim as the specification words it fails in both directions. A line whose first
  three letters are no month is accepted. A line in which \<open>Debit\<close> follows the date at once
  is rejected, because the pattern asks for a blank after the year and another blank
  before the direction.
\<close>

theorem line_classifier_counterexample:
  "is_transaction_line ''Xyz 99, 0000 a Debit INR 5''
   \<and> \<not> spec_line_classifier ''Xyz 99, 0000 a Debit INR 5''
   \<and> \<not> is_transaction_line ''Jan 04, 2023 Debit INR 5''
   \<and> spec_line_classifier ''Jan 04, 2023 Debit INR 5''"
proof -
  have 1: "is_transaction_line ''Xyz 99, 0000 a Debit INR 5''" by code_simp
  have 2: "\<not> spec_line_classifier ''Xyz 99, 0000 a Debit INR 5''"
    by (simp add: spec_line_classifier_def spec_begins_with_date_def spec_month_abbreviations_def)
  have 3: "\<not> is_transaction_line ''Jan 04, 2023 Debit INR 5''" by code_simp
  have t: "split_whitespace (drop 12 ''Jan 04, 2023 Debit INR 5'') = [''Debit'', ''INR'', ''5'']"
    by code_simp
  have d: "spec_begins_with_date ''Jan 04, 2023 Debit INR 5''"
    by (simp add: spec_begins_with_date_def spec_month_abbreviations_def isdigit_def)
  have 4: "spec_line_classifier ''Jan 04, 2023 Debit INR 5''"
    unfolding spec_line_classifier_def t using d by (simp add: isdigit_def)
  show ?thesis using 1 2 3 4 by (intro conjI)
qed

section \<open>Properties of the field extractor\<close>

lemma split_from_not_Nil: "split_from sep acc s \<noteq> []"
  by (induction sep acc s rule: split_from.induct) auto

lemma split_from_two:
  "contains s sep \<Longrightarrow> sep \<noteq> [] \<Longrightarrow> \<exists>a b rest. split_from sep acc s = a # b # rest"
proof (induction sep acc s rule: split_from.induct)
  case (1 sep acc)
  then show ?case by simp
next
  case (2 sep acc c cs)
  show ?case
  proof (cases "prefix sep (c # cs)")
    case True
    obtain b rest where "split_from sep [] (drop (length sep) (c # cs)) = b # rest"
      using split_from_not_Nil [of sep "[]" "drop (length sep) (c # cs)"]
      by (cases "split_from sep [] (drop (length sep) (c # cs))") auto
    then show ?thesis using True "2.prems"(2) by simp
  next
    case False
    then have "contains cs sep" using "2.prems"(1) by simp
    then have "\<exists>a b rest. split_from sep (c # acc) cs = a # b # rest"
      using "2.IH"(2) False "2.prems"(2) by blast
    then show ?thesis using False by simp
  qed
qed

lemma extract_name_Some: "\<exists>name. extract_name line = Some name"
proof -
  have two: "\<exists>a b rest. split_sep sep line = a # b # rest" if "contains line sep" "sep \<noteq> []" for sep
    using that split_from_two unfolding split_sep_def by blast
  have one: "\<exists>a rest. split_sep sep s = a # rest" for sep s
    using split_from_not_Nil [of sep "[]" s] unfolding split_sep_def
    by (cases "split_from sep [] s") auto
  show ?thesis
  proof (cases "contains line ''Paid to''")
    case True
    from two [OF True] obtain a b rest where s1: "split_sep ''Paid to'' line = a # b # rest" by auto
    from one [of "''Debit''" b] obtain x xs where s2: "split_sep ''Debit'' b = x # xs" by auto
    show ?thesis using True s1 s2 by (simp add: extract_name_def)
  next
    case False
    show ?thesis
    proof (cases "contains line ''Received from''")
      case True
      from two [OF True] obtain a b rest where s1: "split_sep ''Received from'' line = a # b # rest"
        by auto
      from one [of "''Credit''" b] obtain x xs where s2: "split_sep ''Credit'' b = x # xs" by auto
      show ?thesis using False True s1 s2 by (simp add: extract_name_def)
    next
      case F2: False
      show ?thesis using False F2 by (simp add: extract_name_def)
    qed
  qed
qed

lemma date_lang:
  "length mon = 3 \<Longrightarrow> list_all isletter mon \<Longrightarrow> length dd = 2 \<Longrightarrow> list_all isdigit dd \<Longrightarrow>
   length yyyy = 4 \<Longrightarrow> list_all isdigit yyyy \<Longrightarrow>
   mon @ '' '' @ dd @ '', '' @ yyyy \<in> lang date_re"
proof -
  assume h: "length mon = 3" "list_all isletter mon" "length dd = 2" "list_all isdigit dd"
    "length yyyy = 4" "list_all isdigit yyyy"
  have m1: "mon \<in> lang (times 3 (Sym Letter))" using h(1,2) unfolding in_lang_times in_class_fun by simp
  have m3: "dd \<in> lang (times 2 (Sym Digit))" using h(3,4) unfolding in_lang_times in_class_fun by simp
  have m5: "yyyy \<in> lang (times 4 (Sym Digit))" using h(5,6) unfolding in_lang_times in_class_fun by simp
  have sp: "'' '' \<in> lang (str '' '')" and cm: "'', '' \<in> lang (str '', '')"
    unfolding in_lang_str by simp_all
  have nil: "[] \<in> lang (seqs [])" by simp
  have "mon @ '' '' @ dd @ '', '' @ yyyy @ [] \<in> lang date_re"
    unfolding date_re_def by (intro seqs_ConsI m1 sp m3 cm m5 nil)
  then show ?thesis by simp
qed

lemma accepted_line_has_date:
  assumes "is_transaction_line line"
  shows "date_match line = Some (take 12 line)"
proof -
  from assms obtain mon dd yyyy mid kind n rest where
    l: "line = mon @ '' '' @ dd @ '', '' @ yyyy @ '' '' @ mid @ '' '' @ kind @ '' INR '' @ [n] @ rest"
    and h: "length mon = 3" "list_all isletter mon" "length dd = 2" "list_all isdigit dd"
      "length yyyy = 4" "list_all isdigit yyyy"
    unfolding transaction_line_shape by blast
  have "mon @ '' '' @ dd @ '', '' @ yyyy \<in> lang date_re" using h by (rule date_lang)
  moreover have "line = (mon @ '' '' @ dd @ '', '' @ yyyy) @ ('' '' @ mid @ '' '' @ kind @ '' INR '' @ [n] @ rest)"
    unfolding l by simp
  ultimately have "re_match date_re line" unfolding re_match_lang by blast
  then show ?thesis by (simp add: date_match_def)
qed

lemma amount_lang:
  "p \<in> lang amount_re \<longleftrightarrow>
     (\<exists>g a b. p = ''INR '' @ g @ ''.'' @ [a, b] \<and> g \<noteq> []
        \<and> list_all (in_class DigitOrComma) g \<and> isdigit a \<and> isdigit b)"
  (is "?L \<longleftrightarrow> ?R")
proof
  assume L: ?L
  from seqs_ConsD [OF L [unfolded amount_re_def]] obtain u1 v1 where e1: "p = u1 @ v1"
    and m1: "u1 \<in> lang (str ''INR '')"
    and r1: "v1 \<in> lang (seqs [Sym DigitOrComma, Star (Sym DigitOrComma), str ''.'', times 2 (Sym Digit)])"
    by blast
  from seqs_ConsD [OF r1] obtain u2 v2 where e2: "v1 = u2 @ v2"
    and m2: "u2 \<in> lang (Sym DigitOrComma)"
    and r2: "v2 \<in> lang (seqs [Star (Sym DigitOrComma), str ''.'', times 2 (Sym Digit)])"
    by blast
  from seqs_ConsD [OF r2] obtain u3 v3 where e3: "v2 = u3 @ v3"
    and m3: "u3 \<in> lang (Star (Sym DigitOrComma))"
    and r3: "v3 \<in> lang (seqs [str ''.'', times 2 (Sym Digit)])"
    by blast
  from seqs_ConsD [OF r3] obtain u4 v4 where e4: "v3 = u4 @ v4"
    and m4: "u4 \<in> lang (str ''.'')"
    and r4: "v4 \<in> lang (seqs [times 2 (Sym Digit)])"
    by blast
  from seqs_ConsD [OF r4] obtain u5 v5 where e5: "v4 = u5 @ v5"
    and m5: "u5 \<in> lang (times 2 (Sym Digit))"
    and r5: "v5 \<in> lang (seqs [])"
    by blast
  have v5: "v5 = []" using r5 by simp
  obtain c where c: "u2 = [c]" "in_class DigitOrComma c" using m2 unfolding in_lang_Sym by blast
  have g: "list_all (in_class DigitOrComma) (c # u3)"
    using c(2) m3 unfolding in_lang_Star_Sym by simp
  have "length u5 = 2" and d5: "list_all isdigit u5"
    using m5 unfolding in_lang_times in_class_fun by simp_all
  then obtain a b where ab: "u5 = [a, b]"
    by (cases u5; cases "tl u5") auto
  have "p = ''INR '' @ (c # u3) @ ''.'' @ [a, b]"
    using m1 m4 unfolding e1 e2 e3 e4 e5 v5 c(1) ab in_lang_str by simp
  moreover have "isdigit a" "isdigit b" using d5 ab by simp_all
  ultimately show ?R using g by blast
next
  assume ?R
  then obtain g a b where p: "p = ''INR '' @ g @ ''.'' @ [a, b]" and "g \<noteq> []"
    and dc: "list_all (in_class DigitOrComma) g" and ab: "isdigit a" "isdigit b"
    by blast
  then obtain c g' where g: "g = c # g'" by (cases g) auto
  have m1: "''INR '' \<in> lang (str ''INR '')" and m4: "''.'' \<in> lang (str ''.'')"
    unfolding in_lang_str by simp_all
  have m2: "[c] \<in> lang (Sym DigitOrComma)" using dc g unfolding in_lang_Sym by simp
  have m3: "g' \<in> lang (Star (Sym DigitOrComma))" using dc g unfolding in_lang_Star_Sym by simp
  have m5: "[a, b] \<in> lang (times 2 (Sym Digit))"
    using ab unfolding in_lang_times in_class_fun by simp
  have nil: "[] \<in> lang (seqs [])" by simp
  have "''INR '' @ [c] @ g' @ ''.'' @ [a, b] @ [] \<in> lang amount_re"
    unfolding amount_re_def by (intro seqs_ConsI m1 m2 m3 m4 m5 nil)
  then show ?L unfolding p g by simp
qed

lemma amount_group_at_iff:
  "amount_group_at s = Some m \<longleftrightarrow> (\<exists>q. s = ''INR '' @ m @ q \<and> ''INR '' @ m \<in> lang amount_re)"
  (is "?L \<longleftrightarrow> ?R")
proof
  assume L: ?L
  then have pre: "prefix ''INR '' s" by (auto simp: amount_group_at_def split: if_splits)
  let ?t = "drop 4 s"
  let ?g = "takeWhile (in_class DigitOrComma) ?t"
  from pre have s: "s = ''INR '' @ ?t" by (auto simp: prefix_def)
  from L pre obtain p a b q where dw: "dropWhile (in_class DigitOrComma) ?t = p # a # b # q"
    and c: "?g \<noteq> []" "p = CHR ''.''" "isdigit a" "isdigit b" and m: "m = ?g @ [p, a, b]"
    by (auto simp: amount_group_at_def Let_def split: if_splits list.splits)
  have "?t = ?g @ p # a # b # q" using takeWhile_dropWhile_id [of "in_class DigitOrComma" ?t] dw
    by simp
  then have "s = ''INR '' @ m @ q" using s m by simp
  moreover have "list_all (in_class DigitOrComma) ?g"
    unfolding list_all_iff by (auto dest: set_takeWhileD)
  then have "''INR '' @ m \<in> lang amount_re"
    unfolding amount_lang using c m by auto
  ultimately show ?R by blast
next
  assume ?R
  then obtain q where s: "s = ''INR '' @ m @ q" and "''INR '' @ m \<in> lang amount_re" by blast
  then obtain g a b where m: "m = g @ ''.'' @ [a, b]" and g: "g \<noteq> []"
    and dc: "list_all (in_class DigitOrComma) g" and ab: "isdigit a" "isdigit b"
    unfolding amount_lang by auto
  have pre: "prefix ''INR '' s" unfolding s by simp
  have t: "drop 4 s = g @ CHR ''.'' # a # b # q" unfolding s m by simp
  have nd: "\<not> in_class DigitOrComma (CHR ''.'')" by (simp add: isdigit_def)
  have all: "\<And>x. x \<in> set g \<Longrightarrow> in_class DigitOrComma x" using dc by (simp add: list_all_iff)
  have tw: "takeWhile (in_class DigitOrComma) (drop 4 s) = g"
    unfolding t using all nd by (simp add: takeWhile_append2)
  have dw: "dropWhile (in_class DigitOrComma) (drop 4 s) = CHR ''.'' # a # b # q"
    unfolding t using all nd by (simp add: dropWhile_append2)
  show ?L unfolding amount_group_at_def Let_def tw dw using pre g ab m by simp
qed

lemma re_match_amount: "re_match amount_re s \<longleftrightarrow> amount_group_at s \<noteq> None"
proof
  assume "re_match amount_re s"
  then obtain p q where s: "s = p @ q" and p: "p \<in> lang amount_re" unfolding re_match_lang by blast
  then obtain m where m: "p = ''INR '' @ m" unfolding amount_lang by auto
  have "amount_group_at s = Some m" unfolding amount_group_at_iff using s p m by auto
  then show "amount_group_at s \<noteq> None" by simp
next
  assume "amount_group_at s \<noteq> None"
  then obtain m where "amount_group_at s = Some m" by auto
  then obtain q where "s = (''INR '' @ m) @ q" "''INR '' @ m \<in> lang amount_re"
    unfolding amount_group_at_iff by auto
  then show "re_match amount_re s" unfolding re_match_lang by blast
qed

lemma amount_group_at_Nil: "amount_group_at [] = None"
  by (simp add: amount_group_at_def)

lemma amount_search_None: "amount_search s = None \<longleftrightarrow> \<not> re_search amount_re s"
proof (induction s)
  case Nil
  have "\<not> re_match amount_re []" unfolding re_match_amount by (simp add: amount_group_at_Nil)
  then show ?case by simp
next
  case (Cons c cs)
  show ?case using Cons.IH
    by (auto simp: re_match_amount simp del: re_match.simps split: option.splits)
qed

lemma first_amount_match_search:
  "first_amount_match line a g b \<Longrightarrow> amount_search line = Some g"
proof (induction a arbitrary: line)
  case Nil
  then have "amount_group_at line = Some g"
    unfolding amount_group_at_iff first_amount_match_def by auto
  then show ?case by (cases line) (simp_all add: amount_group_at_Nil)
next
  case (Cons x a)
  let ?rest = "a @ ''INR '' @ g @ b"
  from Cons.prems have l: "line = x # ?rest" and g: "''INR '' @ g \<in> lang amount_re"
    and no: "\<forall>i<length (x # a). \<not> re_match amount_re (drop i line)"
    unfolding first_amount_match_def by auto
  from no have "\<not> re_match amount_re (drop 0 line)" by (metis length_greater_0_conv list.distinct(1))
  then have n0: "amount_group_at line = None" unfolding re_match_amount by simp
  have "\<forall>i<length a. \<not> re_match amount_re (drop i ?rest)"
  proof (intro allI impI)
    fix i assume "i < length a"
    then have "Suc i < length (x # a)" by simp
    then have "\<not> re_match amount_re (drop (Suc i) line)" using no by blast
    then show "\<not> re_match amount_re (drop i ?rest)" unfolding l by simp
  qed
  then have "first_amount_match ?rest a g b" using g unfolding first_amount_match_def by simp
  then have "amount_search ?rest = Some g" by (rule Cons.IH)
  then show ?case using n0 unfolding l by simp
qed

text \<open>
  Claim C7, as amended. For a line that the classifier accepts and whose first twelve
  characters are a date of the calendar, the extractor gives a row with that date. When
  the line has no match of the amount pattern, the amount of the row is 0. When it has
  one, the amount is the number that the group of the first match denotes once its commas
  are removed.
\<close>

theorem extractor_amount:
  assumes "is_transaction_line line" and "strptime (take 12 line) = Some d"
  shows "\<exists>r. parse_line line = Some r \<and> Date r = d
             \<and> (\<not> re_search amount_re line \<longrightarrow> Amount r = 0)
             \<and> (\<forall>a g b. first_amount_match line a g b
                    \<longrightarrow> Amount r = float_hundredths (filter (\<lambda>c. c \<noteq> CHR '','') g))"
proof -
  obtain name where n: "extract_name line = Some name" using extract_name_Some by blast
  let ?r = "\<lparr>Date = d, Name = name, DebitCredit = txn_type line,
             Amount = (case amount_search line of
                         Some g \<Rightarrow> float_hundredths (filter (\<lambda>c. c \<noteq> CHR '','') g)
                       | None \<Rightarrow> 0),
             Category = None\<rparr>"
  have p: "parse_line line = Some ?r"
    using accepted_line_has_date [OF assms(1)] assms(2) n by (simp add: parse_line_def)
  have z: "\<not> re_search amount_re line \<longrightarrow> Amount ?r = 0"
    using amount_search_None [of line] by auto
  have f: "\<forall>a g b. first_amount_match line a g b
              \<longrightarrow> Amount ?r = float_hundredths (filter (\<lambda>c. c \<noteq> CHR '','') g)"
    using first_amount_match_search by auto
  show ?thesis using p z f by (intro exI [of _ ?r]) simp
qed

theorem extractor_amount_witness:
  "is_transaction_line ''Jul 04, 2023 Paid to Zomato Online Debit INR 450''
   \<and> strptime (take 12 ''Jul 04, 2023 Paid to Zomato Online Debit INR 450'')
       = Some \<lparr>year = 2023, month = 7, day = 4\<rparr>
   \<and> \<not> re_search amount_re ''Jul 04, 2023 Paid to Zomato Online Debit INR 450''
   \<and> (\<exists>r. parse_line ''Jul 04, 2023 Paid to Zomato Online Debit INR 450'' = Some r
          \<and> Amount r = 0)
   \<and> is_transaction_line ''Jan 15, 2024 Received from John Doe Credit INR 1,200.50''
   \<and> first_amount_match ''Jan 15, 2024 Received from John Doe Credit INR 1,200.50''
        ''Jan 15, 2024 Received from John Doe Credit '' ''1,200.50'' []
   \<and> (\<exists>r. parse_line ''Jan 15, 2024 Received from John Doe Credit INR 1,200.50'' = Some r
          \<and> Amount r = 120050)"
proof -
  let ?l1 = "''Jul 04, 2023 Paid to Zomato Online Debit INR 450''"
  let ?l2 = "''Jan 15, 2024 Received from John Doe Credit INR 1,200.50''"
  let ?a = "''Jan 15, 2024 Received from John Doe Credit ''"
  have a1: "is_transaction_line ?l1" by code_simp
  have lj: "lower ''Jul'' = ''jul''" and la: "lower ''Jan'' = ''jan''"
    by (simp_all add: lower_def lower_char_def char_of_eq_iff)
  have d1: "strptime (take 12 ?l1) = Some \<lparr>year = 2023, month = 7, day = 4\<rparr>"
    by (simp add: strptime_def lj month_abbreviations_def digits_value_def digit_value_def
        days_in_month_def is_leap_def)
  have n1: "\<not> re_search amount_re ?l1" by code_simp
  have a2: "is_transaction_line ?l2" by code_simp
  have d2: "strptime (take 12 ?l2) = Some \<lparr>year = 2024, month = 1, day = 15\<rparr>"
    by (simp add: strptime_def la month_abbreviations_def digits_value_def digit_value_def
        days_in_month_def is_leap_def)
  have g: "''INR '' @ ''1,200.50'' \<in> lang amount_re"
    unfolding amount_lang
    by (intro exI [of _ "''1,200''"] exI [of _ "CHR ''5''"] exI [of _ "CHR ''0''"])
       (simp add: isdigit_def)
  have e: "list_all (\<lambda>i. \<not> re_match amount_re (drop i ?l2)) [0..<43]" by code_simp
  have len: "length ?a = 43" by simp
  have e1: "\<forall>i\<in>set [0..<43]. \<not> re_match amount_re (drop i ?l2)"
    using e unfolding list_all_iff .
  have e2: "\<forall>i<length ?a. \<not> re_match amount_re (drop i ?l2)"
  proof (intro allI impI)
    fix i
    assume "i < length ?a"
    then have "i \<in> set [0..<43]" unfolding len by simp
    with e1 show "\<not> re_match amount_re (drop i ?l2)" by blast
  qed
  have split: "?l2 = ?a @ ''INR '' @ ''1,200.50'' @ []" by simp
  have fm: "first_amount_match ?l2 ?a ''1,200.50'' []"
    unfolding first_amount_match_def using split g e2 by (intro conjI)
  have v: "float_hundredths (filter (\<lambda>c. c \<noteq> CHR '','') ''1,200.50'') = 120050"
    by (simp add: float_hundredths_def digits_value_def digit_value_def)
  from extractor_amount [OF a1 d1] obtain r where
    "parse_line ?l1 = Some r" "\<not> re_search amount_re ?l1 \<longrightarrow> Amount r = 0" by blast
  with n1 have r1: "\<exists>r. parse_line ?l1 = Some r \<and> Amount r = 0" by blast
  from extractor_amount [OF a2 d2] obtain r' where p2: "parse_line ?l2 = Some r'"
    and "\<forall>a g b. first_amount_match ?l2 a g b
           \<longrightarrow> Amount r' = float_hundredths (filter (\<lambda>c. c \<noteq> CHR '','') g)" by blast
  with fm have "Amount r' = float_hundredths (filter (\<lambda>c. c \<noteq> CHR '','') ''1,200.50'')" by blast
  then have "Amount r' = 120050" by (simp only: v)
  with p2 have r2: "\<exists>r. parse_line ?l2 = Some r \<and> Amount r = 120050" by blast
  show ?thesis using a1 d1 n1 r1 a2 fm r2 by (intro conjI)
qed

text \<open>
  The claim as the specification words it, for every line that the classifier accepts,
  fails: the classifier accepts any letters and digits in the date, and a line whose date
  is not a date of the calendar is dropped, whether or not it has an amount.
\<close>

theorem extractor_drops_bad_date_counterexample:
  "is_transaction_line ''Feb 30, 2023 Paid to Zomato Online Debit INR 450''
   \<and> \<not> re_search amount_re ''Feb 30, 2023 Paid to Zomato Online Debit INR 450''
   \<and> parse_line ''Feb 30, 2023 Paid to Zomato Online Debit INR 450'' = None"
proof -
  let ?l = "''Feb 30, 2023 Paid to Zomato Online Debit INR 450''"
  have a: "is_transaction_line ?l" by code_simp
  have n: "\<not> re_search amount_re ?l" by code_simp
  have lf: "lower ''Feb'' = ''feb''" by (simp add: lower_def lower_char_def char_of_eq_iff)
  have d: "strptime (take 12 ?l) = None"
    by (simp add: strptime_def lf month_abbreviations_def digits_value_def digit_value_def
        days_in_month_def is_leap_def)
  have p: "parse_line ?l = None"
    using accepted_line_has_date [OF a] d by (simp add: parse_line_def)
  show ?thesis using a n p by (intro conjI)
qed

section \<open>Properties of the export\<close>

lemma of_char_digit_char: "of_char (digit_char n) = 48 + n mod 10"
proof -
  have "48 + n mod 10 < 256" by simp
  then show ?thesis unfolding digit_char_def by (simp add: take_bit_nat_eq_self)
qed

lemma isdigit_digit_char: "isdigit (digit_char n)"
  by (simp add: isdigit_def of_char_digit_char)

lemma digit_value_digit_char: "digit_value (digit_char n) = n mod 10"
  by (simp add: digit_value_def of_char_digit_char)

lemma digit_char_not_stop: "digit_char n \<noteq> CHR ''.''"
proof
  assume "digit_char n = CHR ''.''"
  then have "of_char (digit_char n) = (of_char (CHR ''.'') :: nat)" by simp
  then show False by (simp add: of_char_digit_char)
qed

lemma digit_char_zero: "digit_char n = CHR ''0'' \<longleftrightarrow> n mod 10 = 0"
proof
  assume "digit_char n = CHR ''0''"
  then have "of_char (digit_char n) = (of_char (CHR ''0'') :: nat)" by simp
  then show "n mod 10 = 0" by (simp add: of_char_digit_char)
next
  assume "n mod 10 = 0"
  then show "digit_char n = CHR ''0''" by (simp add: digit_char_def char_of_eq_iff)
qed

lemma digits_value_snoc: "digits_value (xs @ [c]) = 10 * digits_value xs + digit_value c"
  by (simp add: digits_value_def)

lemma digits_value_zero_padded: "digits_value (zero_padded w n) = n mod 10 ^ w"
proof (induction w arbitrary: n)
  case 0
  show ?case by (simp add: digits_value_def)
next
  case (Suc w)
  have "digits_value (zero_padded (Suc w) n) = 10 * ((n div 10) mod 10 ^ w) + n mod 10"
    by (simp add: digits_value_snoc Suc.IH digit_value_digit_char)
  also have "\<dots> = n mod 10 ^ Suc w"
    by (simp add: mod_mult2_eq)
  finally show ?case .
qed

lemma zero_padded_digits: "length (zero_padded w n) = w \<and> list_all isdigit (zero_padded w n)"
  by (induction w arbitrary: n) (simp_all add: isdigit_digit_char)

lemma decimal_digits: "decimal n \<noteq> [] \<and> list_all isdigit (decimal n)"
proof (induction n rule: decimal.induct)
  case (1 n)
  show ?case
  proof (cases "n < 10")
    case True
    then show ?thesis by (simp add: decimal.simps [of n] isdigit_digit_char)
  next
    case False
    with 1 show ?thesis by (simp add: decimal.simps [of n] isdigit_digit_char)
  qed
qed

lemma digits_value_decimal: "digits_value (decimal n) = n"
proof (induction n rule: decimal.induct)
  case (1 n)
  show ?case
  proof (cases "n < 10")
    case True
    then show ?thesis
      by (simp add: decimal.simps [of n] digits_value_def digit_value_digit_char)
  next
    case False
    with 1 have "digits_value (decimal (n div 10)) = n div 10" by simp
    then show ?thesis using False
      by (simp add: decimal.simps [of n] digits_value_snoc digit_value_digit_char)
  qed
qed

lemma decimal_no_leading_zero: "decimal n = ''0'' \<or> \<not> prefix ''0'' (decimal n)"
proof (induction n rule: decimal.induct)
  case (1 n)
  show ?case
  proof (cases "n < 10")
    case True
    then have d: "decimal n = [digit_char n]" by (simp add: decimal.simps [of n])
    show ?thesis unfolding d by (cases "digit_char n = CHR ''0''") simp_all
  next
    case False
    let ?m = "n div 10"
    have m: "?m \<noteq> 0" using False by simp
    have "decimal ?m \<noteq> ''0''"
    proof
      assume "decimal ?m = ''0''"
      then have "digits_value (decimal ?m) = digits_value ''0''" by simp
      moreover have "digits_value ''0'' = 0" by (simp add: digits_value_def digit_value_def)
      ultimately have "?m = 0" by (simp only: digits_value_decimal)
      then show False using m by simp
    qed
    with 1 False have np: "\<not> prefix ''0'' (decimal ?m)" by blast
    obtain c cs where d: "decimal ?m = c # cs"
      using decimal_digits [of ?m] by (cases "decimal ?m") auto
    have "\<not> prefix ''0'' (decimal ?m @ [digit_char n])" using np d by simp
    then show ?thesis using False by (simp add: decimal.simps [of n])
  qed
qed


lemma iso_8601_isoformat:
  assumes "valid_date d"
  shows "iso_8601_date (isoformat d) d"
proof -
  have y: "year d mod 10 ^ 4 = year d" and m: "month d mod 10 ^ 2 = month d"
    using assms by (simp_all add: valid_date_def)
  have "days_in_month (year d) (month d) \<le> 31" by (simp add: days_in_month_def)
  then have dd: "day d mod 10 ^ 2 = day d" using assms by (simp add: valid_date_def)
  show ?thesis
    using zero_padded_digits [of 4 "year d"] zero_padded_digits [of 2 "month d"]
      zero_padded_digits [of 2 "day d"]
      digits_value_zero_padded [of 4 "year d"] digits_value_zero_padded [of 2 "month d"]
      digits_value_zero_padded [of 2 "day d"] y m dd
    by (simp add: iso_8601_date_def isoformat_def)
qed

lemma isdigit_not_stop: "isdigit c \<Longrightarrow> c \<noteq> CHR ''.''"
  by (auto simp: isdigit_def)

lemma takeWhile_whole:
  "list_all isdigit w \<Longrightarrow> takeWhile (\<lambda>c. c \<noteq> CHR ''.'') (w @ CHR ''.'' # f) = w"
proof -
  assume "list_all isdigit w"
  then have "\<And>c. c \<in> set w \<Longrightarrow> c \<noteq> CHR ''.''"
    by (auto simp: list_all_iff dest: isdigit_not_stop)
  then show ?thesis by (simp add: takeWhile_append2)
qed

lemma hundredths_two_digits:
  "100 * (h div 100) + (10 * ((h div 10) mod 10) + h mod 10) = (h::nat)"
proof -
  have "h mod (10 * 10) = 10 * ((h div 10) mod 10) + h mod 10" by (rule mod_mult2_eq)
  then have "h mod 100 = 10 * ((h div 10) mod 10) + h mod 10" by simp
  moreover have "100 * (h div 100) + h mod 100 = h" by simp
  ultimately show ?thesis by simp
qed

lemma hundredths_one_digit:
  "h mod 10 = 0 \<Longrightarrow> 100 * (h div 100) + 10 * ((h div 10) mod 10) = (h::nat)"
  using hundredths_two_digits [of h] by simp

lemma amount_numeral_intro:
  assumes "w \<noteq> []" "list_all isdigit w" "w = ''0'' \<or> \<not> prefix ''0'' w"
    and "list_all isdigit f" "length f = (if h mod 10 = 0 then 1 else 2)"
    and "100 * digits_value w + (if h mod 10 = 0 then 10 * digits_value f else digits_value f) = h"
  shows "amount_numeral (w @ CHR ''.'' # f) h"
proof -
  have tw: "takeWhile (\<lambda>c. c \<noteq> CHR ''.'') (w @ CHR ''.'' # f) = w"
    using assms(2) by (rule takeWhile_whole)
  have fr: "drop (Suc (length w)) (w @ CHR ''.'' # f) = f" by simp
  show ?thesis
    unfolding amount_numeral_def Let_def tw fr using assms by simp
qed

lemma amount_numeral_float_repr:
  assumes "float_repr h = Some s"
  shows "amount_numeral s h"
proof (cases "h mod 10 = 0")
  case True
  let ?w = "decimal (h div 100)"
  let ?f = "[digit_char (h div 10)]"
  have s: "s = ?w @ CHR ''.'' # ?f"
    using assms True by (simp add: float_repr_def split: if_splits)
  have "digits_value ?f = (h div 10) mod 10"
    by (simp add: digits_value_def digit_value_digit_char)
  then have v: "100 * digits_value ?w
      + (if h mod 10 = 0 then 10 * digits_value ?f else digits_value ?f) = h"
    using True hundredths_one_digit [OF True] by (simp add: digits_value_decimal)
  show ?thesis unfolding s
  proof (rule amount_numeral_intro)
    show "?w \<noteq> []" and "list_all isdigit ?w" using decimal_digits [of "h div 100"] by simp_all
    show "?w = ''0'' \<or> \<not> prefix ''0'' ?w" by (rule decimal_no_leading_zero)
    show "list_all isdigit ?f" by (simp add: isdigit_digit_char)
    show "length ?f = (if h mod 10 = 0 then 1 else 2)" using True by simp
    show "100 * digits_value ?w
      + (if h mod 10 = 0 then 10 * digits_value ?f else digits_value ?f) = h" by (rule v)
  qed
next
  case False
  let ?w = "decimal (h div 100)"
  let ?f = "[digit_char (h div 10), digit_char h]"
  have s: "s = ?w @ CHR ''.'' # ?f"
    using assms False by (simp add: float_repr_def split: if_splits)
  have "digits_value ?f = 10 * ((h div 10) mod 10) + h mod 10"
    by (simp add: digits_value_def digit_value_digit_char)
  then have v: "100 * digits_value ?w
      + (if h mod 10 = 0 then 10 * digits_value ?f else digits_value ?f) = h"
    using False hundredths_two_digits [of h] by (simp add: digits_value_decimal)
  show ?thesis unfolding s
  proof (rule amount_numeral_intro)
    show "?w \<noteq> []" and "list_all isdigit ?w" using decimal_digits [of "h div 100"] by simp_all
    show "?w = ''0'' \<or> \<not> prefix ''0'' ?w" by (rule decimal_no_leading_zero)
    show "list_all isdigit ?f" by (simp add: isdigit_digit_char)
    show "length ?f = (if h mod 10 = 0 then 1 else 2)" using False by simp
    show "100 * digits_value ?w
      + (if h mod 10 = 0 then 10 * digits_value ?f else digits_value ?f) = h" by (rule v)
  qed
qed

lemma export_columns_eq:
  "export_columns = [''Date'', ''Name'', ''Debit/Credit'', ''Amount'', ''Category'']"
  by (simp add: export_columns_def assign_column_def parsed_columns_def)

lemma csv_row_cells:
  assumes "Amount r < 10 ^ 15"
  shows "\<exists>amount. float_repr (Amount r) = Some amount
           \<and> csv_row r = Some [isoformat (Date r), Name r, DebitCredit r, amount,
                                (case Category r of Some c \<Rightarrow> c | None \<Rightarrow> [])]"
proof -
  obtain amount where a: "float_repr (Amount r) = Some amount"
    using assms by (simp add: float_repr_def)
  have "csv_row r = Some [isoformat (Date r), Name r, DebitCredit r, amount,
                                (case Category r of Some c \<Rightarrow> c | None \<Rightarrow> [])]"
    by (simp add: csv_row_def a export_columns_eq cell_def)
  with a show ?thesis by blast
qed

lemma csv_rows_in_range:
  "\<forall>r\<in>set df. Amount r < 10 ^ 15 \<Longrightarrow>
   \<exists>rows. csv_rows df = Some rows \<and> length rows = length df
          \<and> (\<forall>i<length df. csv_row (df ! i) = Some (rows ! i))"
proof (induction df)
  case Nil
  show ?case by simp
next
  case (Cons r df)
  from Cons.prems have "Amount r < 10 ^ 15" by simp
  then obtain cells where c: "csv_row r = Some cells" using csv_row_cells by blast
  from Cons obtain rows where rs: "csv_rows df = Some rows" "length rows = length df"
    "\<forall>i<length df. csv_row (df ! i) = Some (rows ! i)" by auto
  have "\<forall>i<length (r # df). csv_row ((r # df) ! i) = Some ((cells # rows) ! i)"
  proof (intro allI impI)
    fix i assume "i < length (r # df)"
    then show "csv_row ((r # df) ! i) = Some ((cells # rows) ! i)"
      using c rs(3) by (cases i) simp_all
  qed
  then show ?case using c rs by simp
qed

text \<open>
  Every row that the parser builds has a date of the calendar, so the frames of the PDF
  path meet the condition on dates below.
\<close>

lemma float_repr_out_of_range: "10 ^ 15 \<le> h \<Longrightarrow> float_repr h = None"
  by (simp add: float_repr_def)

lemma index_of_less: "index_of x xs = Some i \<Longrightarrow> i < length xs"
  by (induction xs arbitrary: i) (auto split: if_splits)

lemma digit_value_le: "isdigit c \<Longrightarrow> digit_value c \<le> 9"
  by (auto simp: isdigit_def digit_value_def Let_def)

lemma digits_value_less: "list_all isdigit xs \<Longrightarrow> digits_value xs < 10 ^ length xs"
proof (induction xs rule: rev_induct)
  case Nil
  show ?case by (simp add: digits_value_def)
next
  case (snoc c xs)
  then have "digits_value xs < 10 ^ length xs" and "digit_value c \<le> 9"
    by (simp_all add: digit_value_le)
  then have "10 * digits_value xs + digit_value c < 10 * 10 ^ length xs" by simp
  then show ?case by (simp add: digits_value_snoc)
qed

lemma date_re_shape:
  assumes "p \<in> lang date_re"
  shows "\<exists>mon dd yyyy. p = mon @ '' '' @ dd @ '', '' @ yyyy \<and> length mon = 3
           \<and> length dd = 2 \<and> list_all isdigit dd \<and> length yyyy = 4 \<and> list_all isdigit yyyy"
proof -
  from seqs_ConsD [OF assms [unfolded date_re_def]] obtain u1 v1 where e1: "p = u1 @ v1"
    and m1: "u1 \<in> lang (times 3 (Sym Letter))"
    and r1: "v1 \<in> lang (seqs [str '' '', times 2 (Sym Digit), str '', '', times 4 (Sym Digit)])"
    by blast
  from seqs_ConsD [OF r1] obtain u2 v2 where e2: "v1 = u2 @ v2"
    and m2: "u2 \<in> lang (str '' '')"
    and r2: "v2 \<in> lang (seqs [times 2 (Sym Digit), str '', '', times 4 (Sym Digit)])"
    by blast
  from seqs_ConsD [OF r2] obtain u3 v3 where e3: "v2 = u3 @ v3"
    and m3: "u3 \<in> lang (times 2 (Sym Digit))"
    and r3: "v3 \<in> lang (seqs [str '', '', times 4 (Sym Digit)])"
    by blast
  from seqs_ConsD [OF r3] obtain u4 v4 where e4: "v3 = u4 @ v4"
    and m4: "u4 \<in> lang (str '', '')"
    and r4: "v4 \<in> lang (seqs [times 4 (Sym Digit)])"
    by blast
  from seqs_ConsD [OF r4] obtain u5 v5 where e5: "v4 = u5 @ v5"
    and m5: "u5 \<in> lang (times 4 (Sym Digit))"
    and r5: "v5 \<in> lang (seqs [])"
    by blast
  have v5: "v5 = []" using r5 by simp
  have mon: "length u1 = 3" using m1 unfolding in_lang_times by simp
  have dd: "length u3 = 2" "list_all isdigit u3" using m3 unfolding in_lang_times in_class_fun by simp_all
  have yyyy: "length u5 = 4" "list_all isdigit u5" using m5 unfolding in_lang_times in_class_fun by simp_all
  have "p = u1 @ '' '' @ u3 @ '', '' @ u5"
    using m2 m4 unfolding e1 e2 e3 e4 e5 v5 in_lang_str by simp
  with mon dd yyyy show ?thesis by blast
qed

lemma strptime_valid_date:
  assumes "re_match date_re line" and "strptime (take 12 line) = Some d"
  shows "valid_date d"
proof -
  from assms(1) obtain p q where l: "line = p @ q" and p: "p \<in> lang date_re"
    unfolding re_match_lang by blast
  from date_re_shape [OF p] obtain mon dd yyyy where
    s: "p = mon @ '' '' @ dd @ '', '' @ yyyy" and h: "length mon = 3" "length dd = 2"
      "list_all isdigit dd" "length yyyy = 4" "list_all isdigit yyyy" by blast
  have t: "take 12 line = p" unfolding l s using h by simp
  have dd: "take 2 (drop 4 p) = dd" unfolding s using h by simp
  have yy: "take 4 (drop 8 p) = yyyy" unfolding s using h by simp
  from assms(2) obtain i where i: "index_of (lower (take 3 p)) month_abbreviations = Some i"
    and c: "1 \<le> digits_value yyyy" "1 \<le> digits_value dd"
      "digits_value dd \<le> days_in_month (digits_value yyyy) (i + 1)"
    and d: "d = \<lparr>year = digits_value yyyy, month = i + 1, day = digits_value dd\<rparr>"
    unfolding t strptime_def Let_def dd yy by (auto split: option.splits if_splits)
  have "i < 12" using index_of_less [OF i] by (simp add: month_abbreviations_def)
  moreover have "digits_value yyyy < 10 ^ 4" using digits_value_less [OF h(5)] h(4) by simp
  ultimately show ?thesis using c unfolding d valid_date_def by simp
qed

lemma parse_line_valid_date:
  assumes "parse_line line = Some r"
  shows "valid_date (Date r)"
proof -
  from assms obtain s d where m: "date_match line = Some s" and st: "strptime s = Some d"
    and r: "Date r = d"
    by (auto simp: parse_line_def split: option.splits)
  from m have "re_match date_re line" and "s = take 12 line"
    by (auto simp: date_match_def split: if_splits)
  with st have "valid_date d" using strptime_valid_date by blast
  then show ?thesis using r by simp
qed

lemma zero_padded_2: "zero_padded 2 n = [digit_char (n div 10), digit_char n]"
proof -
  have "zero_padded (Suc (Suc 0)) n = [digit_char (n div 10), digit_char n]" by simp
  then show ?thesis by (simp only: numeral_2_eq_2)
qed

lemma zero_padded_4:
  "zero_padded 4 n = [digit_char (n div 1000), digit_char (n div 100), digit_char (n div 10),
                      digit_char n]"
proof -
  have 4: "(4::nat) = Suc (Suc (Suc (Suc 0)))" by simp
  show ?thesis unfolding 4 by (simp add: div_mult2_eq [symmetric])
qed

text \<open>
  Claim C8, as amended. For a frame whose dates are dates of the calendar and whose
  amounts are below \<open>10 ^ 15\<close> hundredths, the export is a table whose header is \<open>Date\<close>,
  \<open>Name\<close>, \<open>Debit/Credit\<close>, \<open>Amount\<close>, \<open>Category\<close> in this order, with one row of five
  cells for each row of the frame, in the order of the frame: the date of the row in the
  form of ISO 8601, its name, its direction, the numeral of its amount, and its category.
  The numeral of the amount has one fractional digit when the amount is a whole number of
  tenths and two otherwise.
\<close>

theorem to_csv_format:
  assumes "\<forall>r\<in>set df. Amount r < 10 ^ 15 \<and> valid_date (Date r)"
  shows "\<exists>rows. to_csv df = Some ([''Date'', ''Name'', ''Debit/Credit'', ''Amount'', ''Category''] # rows)
           \<and> length rows = length df
           \<and> (\<forall>i<length df. \<exists>date_cell amount_cell.
                 rows ! i = [date_cell, Name (df ! i), DebitCredit (df ! i), amount_cell,
                             (case Category (df ! i) of Some c \<Rightarrow> c | None \<Rightarrow> [])]
                 \<and> iso_8601_date date_cell (Date (df ! i))
                 \<and> amount_numeral amount_cell (Amount (df ! i)))"
proof -
  from assms have "\<forall>r\<in>set df. Amount r < 10 ^ 15" by blast
  then obtain rows where rs: "csv_rows df = Some rows" "length rows = length df"
    "\<forall>i<length df. csv_row (df ! i) = Some (rows ! i)"
    using csv_rows_in_range by blast
  have t: "to_csv df = Some ([''Date'', ''Name'', ''Debit/Credit'', ''Amount'', ''Category''] # rows)"
    by (simp add: to_csv_def rs(1) export_columns_eq)
  have "\<forall>i<length df. \<exists>date_cell amount_cell.
                 rows ! i = [date_cell, Name (df ! i), DebitCredit (df ! i), amount_cell,
                             (case Category (df ! i) of Some c \<Rightarrow> c | None \<Rightarrow> [])]
                 \<and> iso_8601_date date_cell (Date (df ! i))
                 \<and> amount_numeral amount_cell (Amount (df ! i))"
  proof (intro allI impI)
    fix i assume i: "i < length df"
    let ?r = "df ! i"
    from i assms have b: "Amount ?r < 10 ^ 15" and v: "valid_date (Date ?r)" by simp_all
    from csv_row_cells [OF b] obtain amount where a: "float_repr (Amount ?r) = Some amount"
      and c: "csv_row ?r = Some [isoformat (Date ?r), Name ?r, DebitCredit ?r, amount,
                                (case Category ?r of Some c \<Rightarrow> c | None \<Rightarrow> [])]"
      by blast
    have "rows ! i = [isoformat (Date ?r), Name ?r, DebitCredit ?r, amount,
                                (case Category ?r of Some c \<Rightarrow> c | None \<Rightarrow> [])]"
      using rs(3) i c by simp
    moreover have "iso_8601_date (isoformat (Date ?r)) (Date ?r)" using v by (rule iso_8601_isoformat)
    moreover have "amount_numeral amount (Amount ?r)" using a by (rule amount_numeral_float_repr)
    ultimately show "\<exists>date_cell amount_cell.
                 rows ! i = [date_cell, Name ?r, DebitCredit ?r, amount_cell,
                             (case Category ?r of Some c \<Rightarrow> c | None \<Rightarrow> [])]
                 \<and> iso_8601_date date_cell (Date ?r)
                 \<and> amount_numeral amount_cell (Amount ?r)" by blast
  qed
  with t rs(2) show ?thesis by blast
qed

theorem to_csv_format_witness:
  "Amount \<lparr>Date = \<lparr>year = 2024, month = 3, day = 15\<rparr>, Name = ''John Doe'',
            DebitCredit = ''Debit'', Amount = 120050, Category = Some ''Other''\<rparr> < 10 ^ 15
   \<and> valid_date \<lparr>year = 2024, month = 3, day = 15\<rparr>
   \<and> to_csv [\<lparr>Date = \<lparr>year = 2024, month = 3, day = 15\<rparr>, Name = ''John Doe'',
               DebitCredit = ''Debit'', Amount = 120050, Category = Some ''Other''\<rparr>]
     = Some [[''Date'', ''Name'', ''Debit/Credit'', ''Amount'', ''Category''],
             [''2024-03-15'', ''John Doe'', ''Debit'', ''1200.5'', ''Other'']]
   \<and> iso_8601_date ''2024-03-15'' \<lparr>year = 2024, month = 3, day = 15\<rparr>
   \<and> amount_numeral ''1200.5'' 120050"
proof -
  let ?d = "\<lparr>year = 2024, month = 3, day = 15\<rparr>"
  let ?r = "\<lparr>Date = ?d, Name = ''John Doe'',
             DebitCredit = ''Debit'', Amount = 120050, Category = Some ''Other''\<rparr>"
  have b: "Amount ?r < 10 ^ 15" by simp
  have v: "valid_date ?d" by (simp add: valid_date_def days_in_month_def)
  have hyp: "\<forall>r\<in>set [?r]. Amount r < 10 ^ 15 \<and> valid_date (Date r)" using b v by simp
  have fr: "float_repr 120050 = Some ''1200.5''"
    by (simp add: float_repr_def decimal.simps digit_char_def char_of_eq_iff)
  have iso: "isoformat ?d = ''2024-03-15''"
    by (simp add: isoformat_def zero_padded_2 zero_padded_4 digit_char_def char_of_eq_iff)
  have x: "to_csv [?r] = Some [[''Date'', ''Name'', ''Debit/Credit'', ''Amount'', ''Category''],
             [''2024-03-15'', ''John Doe'', ''Debit'', ''1200.5'', ''Other'']]"
    by (simp add: to_csv_def csv_row_def export_columns_eq cell_def fr iso)
  from to_csv_format [OF hyp] obtain rows where
    t: "to_csv [?r] = Some ([''Date'', ''Name'', ''Debit/Credit'', ''Amount'', ''Category''] # rows)"
    and c: "\<forall>i<length [?r]. \<exists>date_cell amount_cell.
                 rows ! i = [date_cell, Name ([?r] ! i), DebitCredit ([?r] ! i), amount_cell,
                             (case Category ([?r] ! i) of Some c \<Rightarrow> c | None \<Rightarrow> [])]
                 \<and> iso_8601_date date_cell (Date ([?r] ! i))
                 \<and> amount_numeral amount_cell (Amount ([?r] ! i))"
    by blast
  from t x have rows: "rows = [[''2024-03-15'', ''John Doe'', ''Debit'', ''1200.5'', ''Other'']]"
    by simp
  from c have "\<exists>date_cell amount_cell.
                 rows ! 0 = [date_cell, Name ([?r] ! 0), DebitCredit ([?r] ! 0), amount_cell,
                             (case Category ([?r] ! 0) of Some c \<Rightarrow> c | None \<Rightarrow> [])]
                 \<and> iso_8601_date date_cell (Date ([?r] ! 0))
                 \<and> amount_numeral amount_cell (Amount ([?r] ! 0))"
    by simp
  then obtain date_cell amount_cell where
    e: "rows ! 0 = [date_cell, ''John Doe'', ''Debit'', amount_cell, ''Other'']"
    and i: "iso_8601_date date_cell ?d" and a: "amount_numeral amount_cell 120050"
    by auto
  from e rows have "date_cell = ''2024-03-15''" and "amount_cell = ''1200.5''" by simp_all
  with i a have "iso_8601_date ''2024-03-15'' ?d" and "amount_numeral ''1200.5'' 120050"
    by simp_all
  with b v x show ?thesis by (intro conjI)
qed

text \<open>
  The claim as the specification words it, that the amount has exactly two fractional
  digits, fails: the first example line of the specification is exported with the
  amount \<open>450.0\<close>.
\<close>

theorem to_csv_amount_counterexample:
  "parse_line ''Jul 04, 2023 Paid to Zomato Online Debit INR 450.00''
     = Some \<lparr>Date = \<lparr>year = 2023, month = 7, day = 4\<rparr>, Name = ''Zomato Online'',
             DebitCredit = ''Debit'', Amount = 45000, Category = None\<rparr>
   \<and> to_csv (fst (categorize_transactions
        [\<lparr>Date = \<lparr>year = 2023, month = 7, day = 4\<rparr>, Name = ''Zomato Online'',
          DebitCredit = ''Debit'', Amount = 45000, Category = None\<rparr>]
        default_keywords []))
     = Some [[''Date'', ''Name'', ''Debit/Credit'', ''Amount'', ''Category''],
             [''2023-07-04'', ''Zomato Online'', ''Debit'', ''450.0'', ''Food'']]
   \<and> \<not> spec_two_fraction_digits ''450.0''"
proof -
  let ?l = "''Jul 04, 2023 Paid to Zomato Online Debit INR 450.00''"
  have a: "is_transaction_line ?l" by code_simp
  have lj: "lower ''Jul'' = ''jul''" by (simp add: lower_def lower_char_def char_of_eq_iff)
  have d: "strptime (take 12 ?l) = Some \<lparr>year = 2023, month = 7, day = 4\<rparr>"
    by (simp add: strptime_def lj month_abbreviations_def digits_value_def digit_value_def
        days_in_month_def is_leap_def)
  have n: "extract_name ?l = Some ''Zomato Online''" by code_simp
  have t: "txn_type ?l = ''Debit''" by code_simp
  have m: "amount_search ?l = Some ''450.00''" by code_simp
  have v: "float_hundredths (filter (\<lambda>c. c \<noteq> CHR '','') ''450.00'') = 45000"
    by (simp add: float_hundredths_def digits_value_def digit_value_def)
  have p: "parse_line ?l
     = Some \<lparr>Date = \<lparr>year = 2023, month = 7, day = 4\<rparr>, Name = ''Zomato Online'',
             DebitCredit = ''Debit'', Amount = 45000, Category = None\<rparr>"
    unfolding parse_line_def accepted_line_has_date [OF a] by (simp only: d n t m v option.case)
  have lo: "lower ''Zomato Online'' = ''zomato online''"
    by (simp add: lower_def lower_char_def char_of_eq_iff)
  have st: "strip ''zomato online'' = ''zomato online''" by code_simp
  have sc: "keyword_scan default_keywords ''zomato online'' = Some ''Food''" by code_simp
  have c: "categorize_name default_keywords [] ''Zomato Online'' = ''Food''"
    by (simp add: categorize_name_def lo st sc)
  have fr: "float_repr 45000 = Some ''450.0''"
    by (simp add: float_repr_def decimal.simps digit_char_def char_of_eq_iff)
  have iso: "isoformat \<lparr>year = 2023, month = 7, day = 4\<rparr> = ''2023-07-04''"
    by (simp add: isoformat_def zero_padded_2 zero_padded_4 digit_char_def char_of_eq_iff)
  have x: "to_csv (fst (categorize_transactions
        [\<lparr>Date = \<lparr>year = 2023, month = 7, day = 4\<rparr>, Name = ''Zomato Online'',
          DebitCredit = ''Debit'', Amount = 45000, Category = None\<rparr>]
        default_keywords []))
     = Some [[''Date'', ''Name'', ''Debit/Credit'', ''Amount'', ''Category''],
             [''2023-07-04'', ''Zomato Online'', ''Debit'', ''450.0'', ''Food'']]"
    by (simp add: to_csv_def csv_row_def export_columns_eq cell_def categorize_transactions_def
        c fr iso)
  have s: "\<not> spec_two_fraction_digits ''450.0''"
    by (simp add: spec_two_fraction_digits_def isdigit_def)
  show ?thesis using p x s by (intro conjI)
qed

end
